theory Spec2Isabelle
  imports Complex_Main "HOL-Library.Word" "HOL-Library.AList" "HOL-Library.Char_ord"
    "HOL-Library.List_Lexorder"
begin

chapter \<open>Duplicate photo detector and safe-delete executor\<close>

text \<open>
  A shallow embedding of \<^verbatim>\<open>find_duplicates.py\<close> (class \<^verbatim>\<open>DuplicateFinder\<close>) and of
  \<^verbatim>\<open>delete_files.py\<close> (\<^verbatim>\<open>create_backup_and_delete\<close>).  The file system is an explicit
  value, every \<^verbatim>\<open>except\<close> branch of the source is a branch of the model, and the lines the
  program prints as warnings or errors are collected in a list of messages.
\<close>

section \<open>The file system seen by the detector\<close>

text \<open>
  All files live directly in \<^verbatim>\<open>source_dir\<close>, so a path is identified with its file name.
  Paths are compared as \<^verbatim>\<open>pathlib\<close> does on a POSIX flavour: by code point, which for files
  of one directory is the order of their names.

  What opening and reading a regular file does: \<open>Denied\<close> when \<^verbatim>\<open>open\<close> raises,
  \<open>Bytes bs\<close> when the file delivers \<open>bs\<close> and then end of file, \<open>Faulty bs\<close> when it
  delivers \<open>bs\<close> and the next read raises.

  A directory entry is a directory, a regular file, or \<open>NoStat\<close>: an entry whose status the
  system refuses to give, so that \<^verbatim>\<open>Path.exists\<close> and \<^verbatim>\<open>Path.is_file\<close> raise
  \<^verbatim>\<open>PermissionError\<close> on it instead of returning (\<^verbatim>\<open>pathlib\<close> swallows only the errors of
  a missing or dangling path, for which both return \<open>False\<close>).
\<close>

type_synonym byte = "8 word"
type_synonym path = string

datatype content = Denied | Bytes "byte list" | Faulty "byte list"

datatype node = Directory | Regular content | NoStat

datatype error = TypeError | PermissionError

record world =
  iterdir :: "path list option"
  node_of :: "path \<Rightarrow> node option"

datatype message =
    Inaccessible path
  | ListError
  | Md5Error path
  | PhashError path
  | ConvertError path

definition path_exists :: "world \<Rightarrow> path \<Rightarrow> error + bool" where
  "path_exists w p =
     (case node_of w p of
        None \<Rightarrow> Inr False
      | Some NoStat \<Rightarrow> Inl PermissionError
      | Some n \<Rightarrow> Inr True)"

definition is_file :: "world \<Rightarrow> path \<Rightarrow> error + bool" where
  "is_file w p =
     (case node_of w p of
        None \<Rightarrow> Inr False
      | Some NoStat \<Rightarrow> Inl PermissionError
      | Some (Regular c) \<Rightarrow> Inr True
      | Some Directory \<Rightarrow> Inr False)"

text \<open>\<^verbatim>\<open>open(file_path, 'rb')\<close> followed by \<^verbatim>\<open>f.read(1)\<close>: \<open>True\<close> when neither raises.
  Reading one byte at the end of a file returns the empty bytes object and raises nothing.\<close>

definition read_one_ok :: "content \<Rightarrow> bool" where
  "read_one_ok c = (case c of Denied \<Rightarrow> False | Bytes bs \<Rightarrow> True | Faulty bs \<Rightarrow> bs \<noteq> [])"

definition safe_file_access :: "world \<Rightarrow> path \<Rightarrow> bool" where
  "safe_file_access w p =
     (case path_exists w p of
        Inl e \<Rightarrow> False
      | Inr False \<Rightarrow> False
      | Inr True \<Rightarrow>
          (case is_file w p of
             Inl e \<Rightarrow> False
           | Inr False \<Rightarrow> False
           | Inr True \<Rightarrow>
               (case node_of w p of Some (Regular c) \<Rightarrow> read_one_ok c | _ \<Rightarrow> False)))"

section \<open>File Enumerator\<close>

text \<open>\<^verbatim>\<open>PurePath.suffix\<close>: the part of the name from its last dot, when that dot is neither
  the first nor the last character; and \<^verbatim>\<open>str.lower\<close> on the letters A to Z.\<close>

definition rfind_dot :: "string \<Rightarrow> nat option" where
  "rfind_dot s =
     (case filter (\<lambda>i. s ! i = CHR ''.'') (rev [0..<length s]) of
        [] \<Rightarrow> None
      | i # _ \<Rightarrow> Some i)"

definition path_suffix :: "string \<Rightarrow> string" where
  "path_suffix name =
     (case rfind_dot name of
        None \<Rightarrow> []
      | Some i \<Rightarrow> if 0 < i \<and> i < length name - 1 then drop i name else [])"

definition lower_char :: "char \<Rightarrow> char" where
  "lower_char c =
     (if CHR ''A'' \<le> c \<and> c \<le> CHR ''Z'' then char_of (of_char c + (32::nat)) else c)"

definition lower :: "string \<Rightarrow> string" where
  "lower s = map lower_char s"

definition supported_formats :: "string set" where
  "supported_formats = {''.jpg'', ''.jpeg'', ''.png'', ''.bmp'', ''.tiff'', ''.webp''}"

text \<open>The loop over \<^verbatim>\<open>source_dir.iterdir()\<close>; the accumulator is the set \<^verbatim>\<open>images\<close> and
  the lines printed.  The \<^verbatim>\<open>try\<close> of the source encloses the whole loop: when
  \<^verbatim>\<open>file_path.is_file()\<close> raises, the loop ends there, an error line is printed and the
  files collected so far are kept.\<close>

fun scan_entries :: "world \<Rightarrow> path list \<Rightarrow> path set \<times> message list \<Rightarrow> path set \<times> message list" where
  "scan_entries w [] acc = acc"
| "scan_entries w (p # rest) acc =
     (case is_file w p of
        Inl e \<Rightarrow> (fst acc, snd acc @ [ListError])
      | Inr False \<Rightarrow> scan_entries w rest acc
      | Inr True \<Rightarrow>
          if lower (path_suffix p) \<in> supported_formats then
            if safe_file_access w p then scan_entries w rest (insert p (fst acc), snd acc)
            else scan_entries w rest (fst acc, snd acc @ [Inaccessible p])
          else scan_entries w rest acc)"

definition get_image_files :: "world \<Rightarrow> path list \<times> message list" where
  "get_image_files w =
     (let (images, out) =
        (case iterdir w of
           None \<Rightarrow> ({}, [ListError])
         | Some entries \<Rightarrow> scan_entries w entries ({}, []))
      in (sorted_list_of_set images, out))"

section \<open>Exact-Match Fingerprinter\<close>

text \<open>
  \<^verbatim>\<open>hashlib.md5\<close> is a parameter: the initial state, the update by a chunk and the 128-bit
  digest of a state.
\<close>

record 'st hasher =
  md5_new :: "'st"
  md5_update :: "'st \<Rightarrow> byte list \<Rightarrow> 'st"
  md5_digest :: "'st \<Rightarrow> 128 word"

text \<open>Modelled from the spec: \<^verbatim>\<open>hexdigest\<close> of \<^verbatim>\<open>hashlib\<close> is not under src/; section 4.2
  describes the digest as 128-bit, rendered as a lowercase hex string (32 digits, most
  significant first).\<close>

definition hex_digit :: "nat \<Rightarrow> char" where
  "hex_digit n = ''0123456789abcdef'' ! (n mod 16)"

definition hexdigest :: "128 word \<Rightarrow> string" where
  "hexdigest d = map (\<lambda>i. hex_digit (unat (drop_bit (4 * i) d) mod 16)) (rev [0..<32])"

text \<open>\<^verbatim>\<open>iter(lambda: f.read(4096), b"")\<close>: the chunks of a file, each of 4096 bytes but the
  last.\<close>

function chunks :: "nat \<Rightarrow> 'a list \<Rightarrow> 'a list list" where
  "chunks n xs = (if n = 0 \<or> xs = [] then [] else take n xs # chunks n (drop n xs))"
  by pat_completeness auto
termination
  by (relation "measure (\<lambda>(n, xs). length xs)") auto

declare chunks.simps [simp del]

definition read_chunks :: "nat \<Rightarrow> content \<Rightarrow> byte list list option" where
  "read_chunks n c =
     (case c of Denied \<Rightarrow> None | Bytes bs \<Rightarrow> Some (chunks n bs) | Faulty bs \<Rightarrow> None)"

definition calculate_md5 :: "'st hasher \<Rightarrow> world \<Rightarrow> path \<Rightarrow> string \<times> message list" where
  "calculate_md5 h w p =
     (if \<not> safe_file_access w p then ([], [])
      else
        (case node_of w p of
           Some (Regular c) \<Rightarrow>
             (case read_chunks 4096 c of
                None \<Rightarrow> ([], [Md5Error p])
              | Some cs \<Rightarrow> (hexdigest (md5_digest h (foldl (md5_update h) (md5_new h) cs)), []))
         | _ \<Rightarrow> ([], [Md5Error p])))"

text \<open>The state of a \<^verbatim>\<open>DuplicateFinder\<close>.  \<^verbatim>\<open>md5_duplicates\<close> is a dictionary in insertion
  order, from a digest to the list of paths with that digest.\<close>

record finder =
  md5_duplicates :: "(string \<times> path list) list"
  perceptual_duplicates :: "path list list"
  all_images :: "path list"
  console :: "message list"

definition init :: finder where
  "init = \<lparr>md5_duplicates = [], perceptual_duplicates = [], all_images = [], console = []\<rparr>"

text \<open>\<^verbatim>\<open>d[k].append(v)\<close> on a \<^verbatim>\<open>defaultdict(list)\<close>: a new key goes to the end with the one
  value, a known key keeps its place.\<close>

fun dict_append :: "'k \<Rightarrow> 'v \<Rightarrow> ('k \<times> 'v list) list \<Rightarrow> ('k \<times> 'v list) list" where
  "dict_append k v [] = [(k, [v])]"
| "dict_append k v ((k', vs) # d) =
     (if k' = k then (k', vs @ [v]) # d else (k', vs) # dict_append k v d)"

definition md5_step :: "'st hasher \<Rightarrow> world \<Rightarrow> finder \<Rightarrow> path \<Rightarrow> finder" where
  "md5_step h w f img_path =
     (let (md5, out) = calculate_md5 h w img_path;
          f' = f\<lparr>console := console f @ out\<rparr>
      in if md5 \<noteq> [] then f'\<lparr>md5_duplicates := dict_append md5 img_path (md5_duplicates f')\<rparr>
         else f')"

definition find_md5_duplicates :: "'st hasher \<Rightarrow> world \<Rightarrow> finder \<Rightarrow> finder" where
  "find_md5_duplicates h w f =
     (let (images, out) = get_image_files w;
          f1 = f\<lparr>all_images := images, console := console f @ out\<rparr>;
          f2 = foldl (md5_step h w) f1 images
      in f2\<lparr>md5_duplicates := filter (\<lambda>(k, v). length v > 1) (md5_duplicates f2)\<rparr>)"

section \<open>Perceptual Fingerprinter\<close>

text \<open>
  The image library is a parameter: \<open>dhash_hex n bs\<close> is
  \<^verbatim>\<open>str(imagehash.dhash(Image.open(...), hash_size=n))\<close> on a file of bytes \<open>bs\<close>, \<open>None\<close>
  when decoding raises; \<open>hex_to_hash\<close> is \<^verbatim>\<open>imagehash.hex_to_hash\<close>, \<open>None\<close> when it raises.
  A fingerprint is the flattened bit array of an \<^verbatim>\<open>ImageHash\<close>.
\<close>

type_synonym fingerprint = "bool list"

record imagelib =
  dhash_hex :: "nat \<Rightarrow> byte list \<Rightarrow> string option"
  hex_to_hash :: "string \<Rightarrow> fingerprint option"

definition calculate_perceptual_hash :: "imagelib \<Rightarrow> world \<Rightarrow> path \<Rightarrow> string \<times> message list" where
  "calculate_perceptual_hash il w p =
     (if \<not> safe_file_access w p then ([], [])
      else
        (case node_of w p of
           Some (Regular (Bytes bs)) \<Rightarrow>
             (case dhash_hex il 16 bs of
                None \<Rightarrow> ([], [PhashError p])
              | Some s \<Rightarrow> (s, []))
         | _ \<Rightarrow> ([], [PhashError p])))"

section \<open>Similarity Clusterer\<close>

text \<open>Modelled from the spec: the subtraction of two \<^verbatim>\<open>ImageHash\<close> values is not under src/;
  the glossary gives the Hamming distance as the count of differing bit positions between
  two equal-length bit patterns.  On patterns of different sizes the library raises.\<close>

definition hash_sub :: "fingerprint \<Rightarrow> fingerprint \<Rightarrow> error + nat" where
  "hash_sub h1 h2 =
     (if length h1 \<noteq> length h2 then Inl TypeError
      else Inr (length (filter (\<lambda>(a, b). a \<noteq> b) (zip h1 h2))))"

text \<open>\<^verbatim>\<open>similarity = 1.0 - (diff / 64.0)\<close>.  The division is by a power of two and the
  difference from one is a multiple of 1/64 of small magnitude, so the floating-point
  result is this rational exactly.\<close>

definition similarity :: "nat \<Rightarrow> rat" where
  "similarity diff = 1 - of_nat diff / 64"

text \<open>The loop that fills \<^verbatim>\<open>image_hashes\<close>, a dictionary in insertion order.\<close>

definition hash_step ::
  "imagelib \<Rightarrow> world \<Rightarrow> (path \<times> fingerprint) list \<times> message list \<Rightarrow> path \<Rightarrow>
   (path \<times> fingerprint) list \<times> message list" where
  "hash_step il w acc img_path =
     (let (phash, out) = calculate_perceptual_hash il w img_path;
          msgs = snd acc @ out
      in if phash \<noteq> [] then
           (case hex_to_hash il phash of
              None \<Rightarrow> (fst acc, msgs @ [ConvertError img_path])
            | Some h \<Rightarrow> (AList.update img_path h (fst acc), msgs))
         else (fst acc, msgs))"

text \<open>The inner loop over \<^verbatim>\<open>list(image_hashes.items())[i+1:]\<close>; the accumulator is
  \<^verbatim>\<open>current_group\<close> and \<^verbatim>\<open>processed_images\<close>.\<close>

fun scan_later ::
  "rat \<Rightarrow> fingerprint \<Rightarrow> (path \<times> fingerprint) list \<Rightarrow> path list \<times> path set \<Rightarrow>
   path list \<times> path set" where
  "scan_later threshold hash1 [] acc = acc"
| "scan_later threshold hash1 ((img2_path, hash2) # rest) (current_group, processed_images) =
     (if img2_path \<in> processed_images then
        scan_later threshold hash1 rest (current_group, processed_images)
      else
        (case hash_sub hash1 hash2 of
           Inl e \<Rightarrow> scan_later threshold hash1 rest (current_group, processed_images)
         | Inr diff \<Rightarrow>
             if similarity diff \<ge> threshold then
               scan_later threshold hash1 rest
                 (current_group @ [img2_path], insert img2_path processed_images)
             else scan_later threshold hash1 rest (current_group, processed_images)))"

record clustering =
  similar_groups :: "path list list"
  processed_images :: "path set"

definition visit ::
  "rat \<Rightarrow> (path \<times> fingerprint) list \<Rightarrow> clustering \<Rightarrow> nat \<times> path \<times> fingerprint \<Rightarrow> clustering" where
  "visit threshold items st e =
     (case e of (i, img1_path, hash1) \<Rightarrow>
        if img1_path \<in> processed_images st then st
        else
          (let (current_group, processed) =
                 scan_later threshold hash1 (drop (i + 1) items) ([img1_path], processed_images st)
           in if length current_group > 1 then
                \<lparr>similar_groups = similar_groups st @ [current_group],
                 processed_images = processed \<union> set current_group\<rparr>
              else \<lparr>similar_groups = similar_groups st, processed_images = processed\<rparr>))"

definition cluster :: "rat \<Rightarrow> (path \<times> fingerprint) list \<Rightarrow> path list list" where
  "cluster threshold items =
     similar_groups
       (foldl (visit threshold items) \<lparr>similar_groups = [], processed_images = {}\<rparr>
          (enumerate 0 items))"

definition find_perceptual_duplicates :: "imagelib \<Rightarrow> world \<Rightarrow> rat \<Rightarrow> finder \<Rightarrow> finder" where
  "find_perceptual_duplicates il w threshold f =
     (let (image_hashes, out) = foldl (hash_step il w) ([], []) (all_images f)
      in f\<lparr>perceptual_duplicates := cluster threshold image_hashes,
           console := console f @ out\<rparr>)"

section \<open>Result Reporter\<close>

text \<open>The dictionary \<^verbatim>\<open>results\<close> that \<^verbatim>\<open>save_results_json\<close> assembles and dumps, without its
  time stamp.  The key \<^verbatim>\<open>grupo_i\<close> of an exact group is its number \<open>i\<close>; an entry of
  \<open>md5_groups\<close> is the key, the digest and the files.\<close>

record results =
  total_images :: nat
  md5_groups :: "(nat \<times> string \<times> path list) list"
  perceptual_groups :: "(nat \<times> path list) list"

definition save_results_json :: "finder \<Rightarrow> results" where
  "save_results_json f =
     \<lparr>total_images = length (all_images f),
      md5_groups = enumerate 1 (md5_duplicates f),
      perceptual_groups = enumerate 1 (perceptual_duplicates f)\<rparr>"

text \<open>The three steps of \<^verbatim>\<open>main\<close> on a fresh finder, with the default threshold left as a
  parameter.\<close>

definition run :: "'st hasher \<Rightarrow> imagelib \<Rightarrow> world \<Rightarrow> rat \<Rightarrow> finder" where
  "run h il w threshold =
     find_perceptual_duplicates il w threshold (find_md5_duplicates h w init)"

definition report :: "'st hasher \<Rightarrow> imagelib \<Rightarrow> world \<Rightarrow> rat \<Rightarrow> results" where
  "report h il w threshold = save_results_json (run h il w threshold)"

section \<open>The delete executor\<close>

text \<open>
  \<^verbatim>\<open>delete_files.py\<close>.  A path is the list of its components; a file system maps a path
  to a directory or to a file with its bytes.  The operations the operating system may
  refuse for reasons outside the model (permissions, a full disk) are a parameter.
\<close>

type_synonym fpath = "string list"

datatype fnode = Dir | File "byte list"

type_synonym filesystem = "fpath \<Rightarrow> fnode option"

datatype os_error = SameFileError | OSError

record faults =
  copy_fails :: "fpath \<Rightarrow> fpath \<Rightarrow> bool"
  unlink_fails :: "fpath \<Rightarrow> bool"
  mkdir_fails :: "fpath \<Rightarrow> bool"
  write_fails :: "fpath \<Rightarrow> bool"
  stat_fails :: "fpath \<Rightarrow> bool"

text \<open>\<^verbatim>\<open>Path.exists\<close>, which raises when the system refuses the path's status.\<close>

definition fpath_exists :: "faults \<Rightarrow> filesystem \<Rightarrow> fpath \<Rightarrow> os_error + bool" where
  "fpath_exists fl fs p = (if stat_fails fl p then Inl OSError else Inr (fs p \<noteq> None))"

text \<open>\<^verbatim>\<open>Path.name\<close>, the last component, and \<^verbatim>\<open>backup_dir / name\<close>.\<close>

definition path_name :: "fpath \<Rightarrow> string" where
  "path_name p = (if p = [] then [] else last p)"

definition joinpath :: "fpath \<Rightarrow> string \<Rightarrow> fpath" where
  "joinpath d n = (if n = [] then d else d @ [n])"

text \<open>\<^verbatim>\<open>shutil.copy2(src, dst)\<close>: a destination that is a directory stands for the file of
  the source's name inside it; copying a file onto itself, copying something that is not
  a file, and writing over a directory raise.\<close>

definition copy_destination :: "filesystem \<Rightarrow> fpath \<Rightarrow> fpath \<Rightarrow> fpath" where
  "copy_destination fs src dst = (if fs dst = Some Dir then joinpath dst (path_name src) else dst)"

definition copy2 :: "faults \<Rightarrow> filesystem \<Rightarrow> fpath \<Rightarrow> fpath \<Rightarrow> os_error + filesystem" where
  "copy2 fl fs src dst =
     (let target = copy_destination fs src dst
      in case fs src of
           Some (File bs) \<Rightarrow>
             if target = src then Inl SameFileError
             else if fs target = Some Dir \<or> copy_fails fl src target then Inl OSError
             else Inr (fs(target \<mapsto> File bs))
         | _ \<Rightarrow> Inl OSError)"

definition unlink :: "faults \<Rightarrow> filesystem \<Rightarrow> fpath \<Rightarrow> os_error + filesystem" where
  "unlink fl fs p =
     (case fs p of
        Some (File bs) \<Rightarrow> if unlink_fails fl p then Inl OSError else Inr (fs(p := None))
      | _ \<Rightarrow> Inl OSError)"

text \<open>\<^verbatim>\<open>backup_dir.mkdir(exist_ok=True)\<close>.\<close>

definition mkdir :: "faults \<Rightarrow> filesystem \<Rightarrow> fpath \<Rightarrow> os_error + filesystem" where
  "mkdir fl fs d =
     (case fs d of
        Some (File bs) \<Rightarrow> Inl OSError
      | Some Dir \<Rightarrow> Inr fs
      | None \<Rightarrow> if mkdir_fails fl d then Inl OSError else Inr (fs(d \<mapsto> Dir)))"

datatype notice = NotFound string | Deleted string | ProcessError string

record deleter =
  fsys :: filesystem
  deleted_count :: nat
  error_count :: nat
  printed :: "notice list"

text \<open>The body of the loop over \<^verbatim>\<open>files_to_delete\<close>.\<close>

definition process_file :: "faults \<Rightarrow> fpath \<Rightarrow> deleter \<Rightarrow> fpath \<Rightarrow> deleter" where
  "process_file fl backup_dir st source_path =
     (case fpath_exists fl (fsys st) source_path of
        Inl e \<Rightarrow>
          st\<lparr>error_count := error_count st + 1,
             printed := printed st @ [ProcessError (path_name source_path)]\<rparr>
      | Inr False \<Rightarrow>
          st\<lparr>error_count := error_count st + 1,
             printed := printed st @ [NotFound (path_name source_path)]\<rparr>
      | Inr True \<Rightarrow>
        (case copy2 fl (fsys st) source_path (joinpath backup_dir (path_name source_path)) of
           Inl e \<Rightarrow>
             st\<lparr>error_count := error_count st + 1,
                printed := printed st @ [ProcessError (path_name source_path)]\<rparr>
         | Inr copied \<Rightarrow>
             (case unlink fl copied source_path of
                Inl e \<Rightarrow>
                  st\<lparr>fsys := copied, error_count := error_count st + 1,
                     printed := printed st @ [ProcessError (path_name source_path)]\<rparr>
              | Inr removed \<Rightarrow>
                  st\<lparr>fsys := removed, deleted_count := deleted_count st + 1,
                     printed := printed st @ [Deleted (path_name source_path)]\<rparr>)))"

text \<open>What reading \<^verbatim>\<open>delete_request.json\<close> gives: no such file, a file that does not parse,
  or the list \<^verbatim>\<open>files_to_delete\<close> (empty when the key is absent).\<close>

datatype request = NoRequestFile | BadRequest | Request "fpath list"

record deletion_log =
  backup_directory :: fpath
  total_requested :: nat
  successfully_deleted :: nat
  errors :: nat
  deleted_files :: "string list"

text \<open>The result is the file system left behind and the log, \<open>None\<close> when the function
  returns early or its outer \<^verbatim>\<open>except\<close> catches an error, so that no log is written: when
  the backup directory cannot be made, when \<^verbatim>\<open>Path(f).exists()\<close> raises while the list
  \<^verbatim>\<open>deleted_files\<close> is built (that call stands outside the \<^verbatim>\<open>try\<close> of the loop), or when
  the log file cannot be written.  The bytes of the log file are not modelled.\<close>

definition create_backup_and_delete ::
  "faults \<Rightarrow> string \<Rightarrow> filesystem \<Rightarrow> request \<Rightarrow> filesystem \<times> deletion_log option" where
  "create_backup_and_delete fl timestamp fs req =
     (case req of
        NoRequestFile \<Rightarrow> (fs, None)
      | BadRequest \<Rightarrow> (fs, None)
      | Request files_to_delete \<Rightarrow>
          if files_to_delete = [] then (fs, None)
          else
            (let backup_dir = [''backup_deletions_'' @ timestamp]
             in case mkdir fl fs backup_dir of
                  Inl e \<Rightarrow> (fs, None)
                | Inr fs0 \<Rightarrow>
                    (let st = foldl (process_file fl backup_dir)
                                \<lparr>fsys = fs0, deleted_count = 0, error_count = 0, printed = []\<rparr>
                                files_to_delete;
                         log_data =
                           \<lparr>backup_directory = backup_dir,
                            total_requested = length files_to_delete,
                            successfully_deleted = deleted_count st,
                            errors = error_count st,
                            deleted_files =
                              map path_name (filter (\<lambda>f. fsys st f = None) files_to_delete)\<rparr>;
                         log_file = joinpath backup_dir ''deletion_log.json''
                     in if list_ex (stat_fails fl) files_to_delete then (fsys st, None)
                        else if fsys st log_file = Some Dir \<or> write_fails fl log_file
                        then (fsys st, None)
                        else ((fsys st)(log_file \<mapsto> File []), Some log_data))))"

text \<open>A small file system for the executor: two pictures, one of which the system refuses
  to remove, and a request that also names a file that does not exist.\<close>

definition demo_fs :: filesystem where
  "demo_fs =
     (\<lambda>p. if p = [''prints''] then Some Dir
           else if p = [''prints'', ''a.jpg''] then Some (File [1, 2])
           else if p = [''prints'', ''b.jpg''] then Some (File [3])
           else None)"

definition demo_faults :: faults where
  "demo_faults =
     \<lparr>copy_fails = (\<lambda>src dst. False),
      unlink_fails = (\<lambda>p. p = [''prints'', ''b.jpg'']),
      mkdir_fails = (\<lambda>p. False),
      write_fails = (\<lambda>p. False),
      stat_fails = (\<lambda>p. False)\<rparr>"

definition demo_request :: request where
  "demo_request =
     Request [[''prints'', ''a.jpg''], [''prints'', ''missing.jpg''], [''prints'', ''b.jpg'']]"

section \<open>The specification's reading of the clusterer\<close>

text \<open>
  Definitions that follow the words of the specification, to be compared with the ones
  above.  \<open>spec_similarity\<close> is section 4.4's
  "1 - (Hamming distance / fingerprint bit-length)"; \<open>spec_greedy\<close> is its four-step
  single-pass greedy algorithm over the images that have a fingerprint, for any test
  \<open>meets\<close> of an image against the anchor.
\<close>

definition spec_similarity :: "fingerprint \<Rightarrow> fingerprint \<Rightarrow> rat" where
  "spec_similarity h1 h2 =
     1 - of_nat (length (filter (\<lambda>(a, b). a \<noteq> b) (zip h1 h2))) / of_nat (length h1)"

fun spec_greedy ::
  "(fingerprint \<Rightarrow> fingerprint \<Rightarrow> bool) \<Rightarrow> path set \<Rightarrow> (path \<times> fingerprint) list \<Rightarrow>
   path list list" where
  "spec_greedy meets assigned [] = []"
| "spec_greedy meets assigned ((anchor, ha) # later) =
     (if anchor \<in> assigned then spec_greedy meets assigned later
      else
        (let joined = filter (\<lambda>q. fst q \<notin> assigned \<and> meets ha (snd q)) later;
             grp = anchor # map fst joined
         in if length grp \<ge> 2 then grp # spec_greedy meets (assigned \<union> set grp) later
            else spec_greedy meets assigned later))"

text \<open>The join test of section 4.4: the specification's similarity of two bit patterns of
  equal length is at least the threshold.\<close>

definition spec_meets_threshold :: "rat \<Rightarrow> fingerprint \<Rightarrow> fingerprint \<Rightarrow> bool" where
  "spec_meets_threshold threshold h1 h2 =
     (length h1 = length h2 \<and> spec_similarity h1 h2 \<ge> threshold)"

text \<open>The test the code applies to an image against the anchor, and the fingerprint the
  code obtains for a path (\<open>None\<close> when the hex string is empty or cannot be converted).\<close>

definition meets_threshold :: "rat \<Rightarrow> fingerprint \<Rightarrow> fingerprint \<Rightarrow> bool" where
  "meets_threshold threshold h1 h2 =
     (case hash_sub h1 h2 of Inl e \<Rightarrow> False | Inr diff \<Rightarrow> similarity diff \<ge> threshold)"

definition fingerprint_of :: "imagelib \<Rightarrow> world \<Rightarrow> path \<Rightarrow> fingerprint option" where
  "fingerprint_of il w p =
     (let phash = fst (calculate_perceptual_hash il w p)
      in if phash = [] then None else hex_to_hash il phash)"

definition spec_fingerprinted :: "imagelib \<Rightarrow> world \<Rightarrow> path list \<Rightarrow> (path \<times> fingerprint) list" where
  "spec_fingerprinted il w images =
     List.map_filter (\<lambda>p. map_option (Pair p) (fingerprint_of il w p)) images"

section \<open>A concrete directory\<close>

text \<open>
  A small directory on which the theorems below are instantiated: a hash function on
  natural-number states, an image library whose fingerprints are read off the first
  bytes of a file (one hex digit per byte; a file with a byte above 15 does not decode),
  and nine directory entries.
\<close>

definition demo_hasher :: "nat hasher" where
  "demo_hasher =
     \<lparr>md5_new = 0,
      md5_update = (\<lambda>s c. s * 31 + sum_list (map unat c) + length c),
      md5_digest = of_nat\<rparr>"

definition nibble_bits :: "char \<Rightarrow> bool list option" where
  "nibble_bits c =
     (case filter (\<lambda>n. hex_digit n = c) [0..<16] of
        [] \<Rightarrow> None
      | n # _ \<Rightarrow> Some (map (\<lambda>i. odd (n div 2 ^ i)) [3, 2, 1, 0]))"

fun hex_bits :: "string \<Rightarrow> bool list option" where
  "hex_bits [] = Some []"
| "hex_bits (c # cs) =
     (case nibble_bits c of
        None \<Rightarrow> None
      | Some b \<Rightarrow> (case hex_bits cs of None \<Rightarrow> None | Some bs \<Rightarrow> Some (b @ bs)))"

definition demo_lib :: imagelib where
  "demo_lib =
     \<lparr>dhash_hex = (\<lambda>n bs.
         if bs = [] \<or> 4 * n < length bs \<or> list_ex (\<lambda>b. 16 \<le> b) bs then None
         else Some (map (\<lambda>b. hex_digit (unat b)) bs @ replicate (4 * n - length bs) CHR ''0'')),
      hex_to_hash = hex_bits\<rparr>"

definition demo_world :: world where
  "demo_world =
     \<lparr>iterdir = Some [''e.jpg'', ''b.PNG'', ''a.jpg'', ''notes.txt'', ''d.jpeg'', ''c.bmp'',
                      ''g.webp'', ''f.tiff'', ''sub.png'', ''h.jpg''],
      node_of = (\<lambda>p.
         if p = ''a.jpg'' then Some (Regular (Bytes [15, 15, 15]))
         else if p = ''b.PNG'' then Some (Regular (Bytes [15, 15, 14]))
         else if p = ''c.bmp'' then Some (Regular (Bytes [15, 15, 15]))
         else if p = ''d.jpeg'' then Some (Regular Denied)
         else if p = ''e.jpg'' then Some (Regular (Bytes [0, 0, 0, 1]))
         else if p = ''f.tiff'' then Some (Regular (Bytes [255, 1]))
         else if p = ''g.webp'' then Some (Regular (Faulty [15, 15]))
         else if p = ''h.jpg'' then Some (Regular (Bytes [0, 0, 0, 3]))
         else if p = ''notes.txt'' then Some (Regular (Bytes [15, 15, 15]))
         else if p = ''sub.png'' then Some Directory
         else None)\<rparr>"

section \<open>Auxiliary notions\<close>

text \<open>The list a dictionary of lists holds under a key, empty when the key is absent.\<close>

definition bucket :: "('k \<times> 'v list) list \<Rightarrow> 'k \<Rightarrow> 'v list" where
  "bucket d k = (case map_of d k of None \<Rightarrow> [] | Some vs \<Rightarrow> vs)"

section \<open>The specification's reading of the readability probe\<close>

text \<open>The probe in the words of section 4.1: the file exists, is a regular file, and at
  least one byte can be read.\<close>

definition bytes_delivered :: "content \<Rightarrow> byte list" where
  "bytes_delivered c = (case c of Denied \<Rightarrow> [] | Bytes bs \<Rightarrow> bs | Faulty bs \<Rightarrow> bs)"

definition spec_readability_probe :: "world \<Rightarrow> path \<Rightarrow> bool" where
  "spec_readability_probe w p =
     (path_exists w p = Inr True \<and> is_file w p = Inr True \<and>
      (case node_of w p of Some (Regular c) \<Rightarrow> bytes_delivered c \<noteq> [] | _ \<Rightarrow> False))"

text \<open>A directory holding one empty image file.\<close>

definition empty_file_world :: world where
  "empty_file_world =
     \<lparr>iterdir = Some [''empty.jpg''],
      node_of = (\<lambda>p. if p = ''empty.jpg'' then Some (Regular (Bytes [])) else None)\<rparr>"

section \<open>Further directories\<close>

text \<open>The scenario of section 8: two valid, distinct images and a third file, given as
  a parameter; a directory of two images whose fingerprints differ in 20 of their 256
  bits; a directory in which the status of the fourth entry listed cannot be read; and a
  directory with two byte-identical files that do not decode.\<close>

definition scenario_world :: "node \<Rightarrow> world" where
  "scenario_world third =
     \<lparr>iterdir = Some [''c.jpg'', ''a.jpg'', ''b.jpg''],
      node_of = (\<lambda>p.
         if p = ''a.jpg'' then Some (Regular (Bytes [15, 15, 15]))
         else if p = ''b.jpg'' then Some (Regular (Bytes [0, 0, 0, 1]))
         else if p = ''c.jpg'' then Some third
         else None)\<rparr>"

definition distance20_world :: world where
  "distance20_world =
     \<lparr>iterdir = Some [''a.jpg'', ''b.jpg''],
      node_of = (\<lambda>p.
         if p = ''a.jpg'' then Some (Regular (Bytes [15, 15, 15, 15, 15]))
         else if p = ''b.jpg'' then Some (Regular (Bytes [0]))
         else None)\<rparr>"

definition unstattable_world :: world where
  "unstattable_world =
     \<lparr>iterdir = Some [''b.jpg'', ''d.jpg'', ''a.jpg'', ''link.jpg'', ''c.jpg''],
      node_of = (\<lambda>p.
         if p = ''a.jpg'' then Some (Regular (Bytes [15, 15, 15]))
         else if p = ''b.jpg'' then Some (Regular (Bytes [0, 0, 0, 1]))
         else if p = ''c.jpg'' then Some (Regular (Bytes [15, 15, 14]))
         else if p = ''d.jpg'' then Some (Regular (Bytes [7]))
         else if p = ''link.jpg'' then Some NoStat
         else None)\<rparr>"

definition corrupt_pair_world :: world where
  "corrupt_pair_world =
     \<lparr>iterdir = Some [''a.jpg'', ''x.png'', ''y.png''],
      node_of = (\<lambda>p.
         if p = ''a.jpg'' then Some (Regular (Bytes [15, 15, 15]))
         else if p = ''x.png'' then Some (Regular (Bytes [255, 1]))
         else if p = ''y.png'' then Some (Regular (Bytes [255, 1]))
         else None)\<rparr>"

chapter \<open>Properties\<close>

section \<open>The clusterer against the specification's algorithm\<close>

lemma scan_later_filter:
  "distinct (map fst rest) \<Longrightarrow>
   scan_later T h rest (grp, proc) =
     (grp @ map fst (filter (\<lambda>q. fst q \<notin> proc \<and> meets_threshold T h (snd q)) rest),
      proc \<union> fst ` set (filter (\<lambda>q. fst q \<notin> proc \<and> meets_threshold T h (snd q)) rest))"
proof (induction rest arbitrary: grp proc)
  case Nil
  then show ?case by simp
next
  case (Cons x rest)
  obtain p2 h2 where x: "x = (p2, h2)" by (cases x)
  from Cons.prems x have fresh: "p2 \<notin> fst ` set rest" and d: "distinct (map fst rest)"
    by auto
  note IH = Cons.IH [OF d]
  show ?case
  proof (cases "p2 \<notin> proc \<and> meets_threshold T h h2")
    case True
    have same: "filter (\<lambda>q. fst q \<notin> insert p2 proc \<and> meets_threshold T h (snd q)) rest
              = filter (\<lambda>q. fst q \<notin> proc \<and> meets_threshold T h (snd q)) rest"
      using fresh by (intro filter_cong) auto
    from True obtain diff where diff: "hash_sub h h2 = Inr diff" "T \<le> similarity diff"
      by (auto simp: meets_threshold_def split: sum.splits)
    have "scan_later T h (x # rest) (grp, proc) =
          scan_later T h rest (grp @ [p2], insert p2 proc)"
      using True x diff by simp
    also have "\<dots> = ((grp @ [p2]) @ map fst (filter (\<lambda>q. fst q \<notin> proc \<and> meets_threshold T h (snd q)) rest),
        insert p2 proc \<union> fst ` set (filter (\<lambda>q. fst q \<notin> proc \<and> meets_threshold T h (snd q)) rest))"
      unfolding IH same ..
    finally show ?thesis using True x by simp
  next
    case False
    have "scan_later T h (x # rest) (grp, proc) = scan_later T h rest (grp, proc)"
      using False x by (auto simp: meets_threshold_def split: sum.splits)
    then show ?thesis using False x IH by simp
  qed
qed

lemma visit_loop_spec:
  "distinct (map fst (pre @ suf)) \<Longrightarrow>
   similar_groups (foldl (visit T (pre @ suf)) st (enumerate (length pre) suf)) =
     similar_groups st @ spec_greedy (meets_threshold T) (processed_images st) suf"
proof (induction suf arbitrary: pre st)
  case Nil
  then show ?case by simp
next
  case (Cons x suf)
  obtain p1 h1 where x: "x = (p1, h1)" by (cases x)
  let ?items = "pre @ x # suf"
  let ?J = "filter (\<lambda>q. fst q \<notin> processed_images st \<and> meets_threshold T h1 (snd q)) suf"
  have d: "distinct (map fst suf)" using Cons.prems by simp
  have later: "drop (length pre + 1) ?items = suf" by simp
  have step: "visit T ?items st (length pre, p1, h1) =
     (if p1 \<in> processed_images st then st
      else if ?J \<noteq> [] then
        \<lparr>similar_groups = similar_groups st @ [p1 # map fst ?J],
         processed_images = processed_images st \<union> set (p1 # map fst ?J)\<rparr>
      else \<lparr>similar_groups = similar_groups st, processed_images = processed_images st\<rparr>)"
    unfolding visit_def later by (auto simp: scan_later_filter [OF d] filter_empty_conv)
  have IH: "similar_groups (foldl (visit T ?items) st' (enumerate (Suc (length pre)) suf)) =
     similar_groups st' @ spec_greedy (meets_threshold T) (processed_images st') suf" for st'
    using Cons.IH [of "pre @ [x]" st'] Cons.prems by simp
  show ?case
    using x step IH by (simp add: Let_def Suc_le_eq Un_commute)
qed

lemma cluster_spec:
  "distinct (map fst items) \<Longrightarrow> cluster T items = spec_greedy (meets_threshold T) {} items"
  using visit_loop_spec [of "[]" items T] by (simp add: cluster_def)


lemma spec_greedy_disjoint:
  "distinct (map fst items) \<Longrightarrow>
   distinct (concat (spec_greedy meets A items)) \<and>
   set (concat (spec_greedy meets A items)) \<subseteq> fst ` set items - A"
proof (induction items arbitrary: A)
  case Nil
  then show ?case by simp
next
  case (Cons x items)
  obtain a ha where x: "x = (a, ha)" by (cases x)
  let ?J = "filter (\<lambda>q. fst q \<notin> A \<and> meets ha (snd q)) items"
  let ?grp = "a # map fst ?J"
  from Cons.prems x have fresh: "a \<notin> fst ` set items" and d: "distinct (map fst items)"
    by auto
  note IH = Cons.IH [OF d]
  show ?case
  proof (cases "a \<notin> A \<and> ?J \<noteq> []")
    case True
    have eq: "spec_greedy meets A (x # items) = ?grp # spec_greedy meets (A \<union> set ?grp) items"
      using True x by (simp add: Let_def Suc_le_eq)
    have dg: "distinct ?grp"
      using fresh d by (auto simp: distinct_map_filter)
    have sub: "set ?grp \<subseteq> fst ` set (x # items) - A"
      using True x by auto
    from IH [of "A \<union> set ?grp"] eq dg sub show ?thesis
      by auto
  next
    case False
    then have eq: "spec_greedy meets A (x # items) = spec_greedy meets A items"
      using x by (auto simp: Let_def Suc_le_eq)
    from IH [of A] eq show ?thesis by auto
  qed
qed

lemma update_fresh:
  "k \<notin> fst ` set al \<Longrightarrow> AList.update k v al = al @ [(k, v)]"
  by (induction al) auto

lemma hash_step_fst:
  "fst (hash_step il w acc p) =
     (case fingerprint_of il w p of None \<Rightarrow> fst acc | Some h \<Rightarrow> AList.update p h (fst acc))"
  by (auto simp: hash_step_def fingerprint_of_def Let_def split: prod.splits option.splits)

lemma hash_loop_spec:
  "distinct images \<Longrightarrow> set images \<inter> fst ` set (fst acc) = {} \<Longrightarrow>
   fst (foldl (hash_step il w) acc images) = fst acc @ spec_fingerprinted il w images"
proof (induction images arbitrary: acc)
  case Nil
  then show ?case by (simp add: spec_fingerprinted_def List.map_filter_simps)
next
  case (Cons p images)
  let ?acc = "hash_step il w acc p"
  have fst_acc: "fst ?acc = fst acc @ (case fingerprint_of il w p of None \<Rightarrow> [] | Some h \<Rightarrow> [(p, h)])"
    using Cons.prems(2) by (simp add: hash_step_fst update_fresh split: option.splits)
  have "set images \<inter> fst ` set (fst ?acc) = {}"
    using Cons.prems unfolding fst_acc by (auto split: option.splits)
  with Cons.IH [of ?acc] Cons.prems(1)
  have "fst (foldl (hash_step il w) ?acc images) = fst ?acc @ spec_fingerprinted il w images"
    by simp
  then show ?case
    unfolding fst_acc
    by (simp add: spec_fingerprinted_def List.map_filter_simps split: option.splits)
qed

lemma spec_fingerprinted_keys:
  "map fst (spec_fingerprinted il w images) = filter (\<lambda>p. fingerprint_of il w p \<noteq> None) images"
  by (induction images) (auto simp: spec_fingerprinted_def List.map_filter_simps split: option.splits)


section \<open>The stages of a run\<close>

lemma md5_step_all_images: "all_images (md5_step h w f p) = all_images f"
  by (simp add: md5_step_def Let_def split: prod.splits)

lemma md5_loop_all_images: "all_images (foldl (md5_step h w) f ps) = all_images f"
  by (induction ps arbitrary: f) (simp_all add: md5_step_all_images)

lemma find_md5_all_images: "all_images (find_md5_duplicates h w f) = fst (get_image_files w)"
  by (simp add: find_md5_duplicates_def Let_def md5_loop_all_images split: prod.splits)

lemma run_all_images: "all_images (run h il w T) = fst (get_image_files w)"
  by (simp add: run_def find_perceptual_duplicates_def find_md5_all_images split: prod.splits)

lemma run_md5_duplicates:
  "md5_duplicates (run h il w T) = md5_duplicates (find_md5_duplicates h w init)"
  by (simp add: run_def find_perceptual_duplicates_def split: prod.splits)

lemma run_perceptual_duplicates:
  "perceptual_duplicates (run h il w T) =
     cluster T (fst (foldl (hash_step il w) ([], []) (fst (get_image_files w))))"
  by (simp add: run_def find_perceptual_duplicates_def find_md5_all_images split: prod.splits)

lemma get_image_files_distinct: "distinct (fst (get_image_files w))"
  by (simp add: get_image_files_def split: prod.splits)

lemma get_image_files_sorted: "sorted (fst (get_image_files w))"
  by (simp add: get_image_files_def split: prod.splits)

lemma run_perceptual_spec:
  "perceptual_duplicates (run h il w T) =
     spec_greedy (meets_threshold T) {} (spec_fingerprinted il w (fst (get_image_files w)))"
proof -
  let ?images = "fst (get_image_files w)"
  have items: "fst (foldl (hash_step il w) ([], []) ?images) = spec_fingerprinted il w ?images"
    using hash_loop_spec [of ?images "([], [])" il w] get_image_files_distinct [of w] by simp
  have "distinct (map fst (spec_fingerprinted il w ?images))"
    by (simp add: spec_fingerprinted_keys get_image_files_distinct)
  then show ?thesis
    by (simp add: run_perceptual_duplicates items cluster_spec)
qed

text \<open>
  The loop structure of the clusterer is that of the specification's single-pass greedy
  algorithm: the groups a run reports are those of \<open>spec_greedy\<close> over the enumerated
  images that have a fingerprint, in enumeration order, when \<open>spec_greedy\<close> is given the
  test the code applies; and no path occurs twice in the groups, so every image belongs
  to at most one group.
\<close>

lemma run_groups_greedy_structure:
  "perceptual_duplicates (run h il w T) =
     spec_greedy (meets_threshold T) {} (spec_fingerprinted il w (fst (get_image_files w)))
   \<and> distinct (concat (perceptual_duplicates (run h il w T)))"
proof -
  let ?images = "fst (get_image_files w)"
  have "distinct (map fst (spec_fingerprinted il w ?images))"
    by (simp add: spec_fingerprinted_keys get_image_files_distinct)
  then have "distinct (concat (spec_greedy (meets_threshold T) {} (spec_fingerprinted il w ?images)))"
    using spec_greedy_disjoint by blast
  then show ?thesis by (simp add: run_perceptual_spec)
qed

text \<open>
  C2.  The test the code applies is not the one the specification's algorithm uses.  In a
  directory of two images whose 256-bit fingerprints differ in 20 bits, the
  specification's algorithm with the specification's similarity (1 - 20/256, above the
  threshold 0.85) puts the second image into the group anchored at the first; the run
  divides the distance by 64, finds 11/16 below the threshold, and reports no group.
\<close>

theorem greedy_join_test_divides_by_64:
  "spec_fingerprinted demo_lib distance20_world (fst (get_image_files distance20_world)) =
     [(''a.jpg'', replicate 20 True @ replicate 236 False), (''b.jpg'', replicate 256 False)]
   \<and> spec_greedy (spec_meets_threshold (85 / 100)) {}
       (spec_fingerprinted demo_lib distance20_world (fst (get_image_files distance20_world))) =
       [[''a.jpg'', ''b.jpg'']]
   \<and> perceptual_duplicates (run demo_hasher demo_lib distance20_world (85 / 100)) = []"
  by code_simp

text \<open>
  C1.  Two 256-bit fingerprints at Hamming distance 20.  The specification's similarity
  is 1 - 20/256 = 59/64, above the default threshold 0.85, so the two images should form
  a group; the code divides the distance by 64, obtains 11/16 and reports no group.
\<close>

theorem similarity_divides_by_64:
  "hash_sub (replicate 256 False) (replicate 20 True @ replicate 236 False) = Inr 20
   \<and> spec_similarity (replicate 256 False) (replicate 20 True @ replicate 236 False) = 59 / 64
   \<and> (85 / 100 :: rat) \<le> 59 / 64
   \<and> similarity 20 = 11 / 16
   \<and> cluster (85 / 100)
       [(''a.jpg'', replicate 256 False), (''b.jpg'', replicate 20 True @ replicate 236 False)] = []"
  by code_simp


section \<open>Group sizes\<close>

lemma visit_groups_size:
  "\<forall>g \<in> set (similar_groups st). 2 \<le> length g \<Longrightarrow>
   \<forall>g \<in> set (similar_groups (visit T items st e)). 2 \<le> length g"
  by (cases e) (auto simp: visit_def Let_def split: prod.splits)

lemma visit_loop_groups_size:
  "\<forall>g \<in> set (similar_groups st). 2 \<le> length g \<Longrightarrow>
   \<forall>g \<in> set (similar_groups (foldl (visit T items) st es)). 2 \<le> length g"
proof (induction es arbitrary: st)
  case Nil
  then show ?case by simp
next
  case (Cons e es)
  from Cons.IH [OF visit_groups_size [OF Cons.prems]] show ?case by simp
qed

lemma cluster_groups_size: "g \<in> set (cluster T items) \<Longrightarrow> 2 \<le> length g"
  using visit_loop_groups_size [of "\<lparr>similar_groups = [], processed_images = {}\<rparr>" T items]
  by (simp add: cluster_def)

lemma enumerate_member: "(i, x) \<in> set (enumerate n xs) \<Longrightarrow> x \<in> set xs"
  by (metis enumerate_eq_zip in_set_zipE)

lemma find_md5_groups_size:
  "(k, v) \<in> set (md5_duplicates (find_md5_duplicates h w f)) \<Longrightarrow> 2 \<le> length v"
  by (auto simp: find_md5_duplicates_def Let_def split: prod.splits)

text \<open>
  C3.  In the report of a run, every exact group and every similar group lists at least
  two files.
\<close>

theorem report_groups_have_two_members:
  "(\<forall>(i, md5_hash, files) \<in> set (md5_groups (report h il w T)). 2 \<le> length files)
   \<and> (\<forall>(i, files) \<in> set (perceptual_groups (report h il w T)). 2 \<le> length files)"
proof -
  have "2 \<le> length files"
    if "(i, md5_hash, files) \<in> set (md5_groups (report h il w T))" for i md5_hash files
  proof -
    from that have "(i, md5_hash, files) \<in> set (enumerate 1 (md5_duplicates (run h il w T)))"
      by (simp add: report_def save_results_json_def)
    then have "(md5_hash, files) \<in> set (md5_duplicates (find_md5_duplicates h w init))"
      by (auto simp: run_md5_duplicates dest: enumerate_member)
    then show ?thesis by (rule find_md5_groups_size)
  qed
  moreover have "2 \<le> length files"
    if "(i, files) \<in> set (perceptual_groups (report h il w T))" for i files
  proof -
    from that have "files \<in> set (perceptual_duplicates (run h il w T))"
      by (auto simp: report_def save_results_json_def dest: enumerate_member)
    then show ?thesis
      by (auto simp: run_perceptual_duplicates intro: cluster_groups_size)
  qed
  ultimately show ?thesis by blast
qed

theorem report_groups_have_two_members_witness:
  "report demo_hasher demo_lib demo_world (85 / 100) =
     \<lparr>total_images = 7,
      md5_groups = [(1, ''00000000000000000000000000000030'', [''a.jpg'', ''c.bmp''])],
      perceptual_groups = [(1, [''a.jpg'', ''b.PNG'', ''c.bmp'']), (2, [''e.jpg'', ''h.jpg''])]\<rparr>
   \<and> 2 \<le> length [''a.jpg'', ''c.bmp'']
   \<and> 2 \<le> length [''e.jpg'', ''h.jpg'']"
proof -
  have e: "report demo_hasher demo_lib demo_world (85 / 100) =
     \<lparr>total_images = 7,
      md5_groups = [(1, ''00000000000000000000000000000030'', [''a.jpg'', ''c.bmp''])],
      perceptual_groups = [(1, [''a.jpg'', ''b.PNG'', ''c.bmp'']), (2, [''e.jpg'', ''h.jpg''])]\<rparr>"
    by code_simp
  show ?thesis
    using report_groups_have_two_members [of demo_hasher demo_lib demo_world "85 / 100"]
    unfolding e by simp
qed

section \<open>Exact-match grouping\<close>

lemma chunks_concat: "0 < n \<Longrightarrow> concat (chunks n xs) = xs"
proof (induction n xs rule: chunks.induct)
  case (1 n xs)
  then show ?case by (subst chunks.simps) auto
qed

lemma chunks_length: "c \<in> set (chunks n xs) \<Longrightarrow> 0 < length c \<and> length c \<le> n"
proof (induction n xs rule: chunks.induct)
  case (1 n xs)
  from "1.prems" have ne: "\<not> (n = 0 \<or> xs = [])"
    by (subst (asm) chunks.simps) (auto split: if_splits)
  from "1.prems" ne have "c = take n xs \<or> c \<in> set (chunks n (drop n xs))"
    by (subst (asm) chunks.simps) auto
  then show ?case using ne "1.IH" by auto
qed

lemma hex_digit_lower: "hex_digit n \<in> set ''0123456789abcdef''"
  unfolding hex_digit_def by (rule nth_mem) simp

lemma hexdigest_length: "length (hexdigest d) = 32"
  by (simp add: hexdigest_def)

lemma hexdigest_lower: "set (hexdigest d) \<subseteq> set ''0123456789abcdef''"
  unfolding hexdigest_def using hex_digit_lower by (auto simp del: set_simps)

lemma hexdigest_nonempty: "hexdigest d \<noteq> []"
  using hexdigest_length [of d] by auto

lemma calculate_md5_readable:
  "node_of w p = Some (Regular (Bytes bs)) \<Longrightarrow>
   calculate_md5 h w p =
     (hexdigest (md5_digest h (foldl (md5_update h) (md5_new h) (chunks 4096 bs))), [])"
  by (simp add: calculate_md5_def safe_file_access_def path_exists_def is_file_def
      read_one_ok_def read_chunks_def)

lemma calculate_md5_unreadable:
  "\<forall>bs. node_of w p \<noteq> Some (Regular (Bytes bs)) \<Longrightarrow> fst (calculate_md5 h w p) = []"
  by (auto simp: calculate_md5_def read_chunks_def split: option.splits node.splits content.splits)

lemma dict_append_map_of:
  "map_of (dict_append k v d) k' =
     (if k' = k then Some (bucket d k @ [v]) else map_of d k')"
  by (induction d) (auto simp: bucket_def)

lemma dict_append_bucket:
  "bucket (dict_append k v d) k' = bucket d k' @ (if k' = k then [v] else [])"
  by (simp add: bucket_def dict_append_map_of)

lemma dict_append_entry:
  "(k', vs) \<in> set (dict_append k v d) \<Longrightarrow>
   (k', vs) \<in> set d \<or> (k' = k \<and> (vs = [v] \<or> (\<exists>vs0. vs = vs0 @ [v] \<and> (k, vs0) \<in> set d)))"
  by (induction d) (auto split: if_splits)

lemma dict_append_member:
  "(k', vs) \<in> set (dict_append k v d) \<Longrightarrow> x \<in> set vs \<Longrightarrow>
   (k' = k \<and> x = v) \<or> (\<exists>vs0. (k', vs0) \<in> set d \<and> x \<in> set vs0)"
  by (drule dict_append_entry) auto

lemma find_md5_duplicates_dict:
  "md5_duplicates (find_md5_duplicates h w f) =
     filter (\<lambda>(k, v). length v > 1)
       (md5_duplicates
          (foldl (md5_step h w)
             (f\<lparr>all_images := fst (get_image_files w),
                console := console f @ snd (get_image_files w)\<rparr>)
             (fst (get_image_files w))))"
  by (simp add: find_md5_duplicates_def Let_def case_prod_beta)

lemma bucket_member: "bucket d k \<noteq> [] \<Longrightarrow> (k, bucket d k) \<in> set d"
  by (auto simp: bucket_def split: option.splits dest: map_of_SomeD)

lemma md5_step_dict:
  "md5_duplicates (md5_step h w f p) =
     (if fst (calculate_md5 h w p) \<noteq> []
      then dict_append (fst (calculate_md5 h w p)) p (md5_duplicates f)
      else md5_duplicates f)"
  by (simp add: md5_step_def Let_def split: prod.splits)

lemma md5_loop_bucket:
  "k \<noteq> [] \<Longrightarrow>
   bucket (md5_duplicates (foldl (md5_step h w) f ps)) k =
     bucket (md5_duplicates f) k @ filter (\<lambda>p. fst (calculate_md5 h w p) = k) ps"
proof (induction ps arbitrary: f)
  case Nil
  then show ?case by simp
next
  case (Cons p ps)
  have "bucket (md5_duplicates (md5_step h w f p)) k =
        bucket (md5_duplicates f) k @ (if fst (calculate_md5 h w p) = k then [p] else [])"
    using Cons.prems by (auto simp: md5_step_dict dict_append_bucket)
  with Cons.IH [OF Cons.prems, of "md5_step h w f p"] show ?case by simp
qed

lemma md5_loop_members:
  "(k, vs) \<in> set (md5_duplicates (foldl (md5_step h w) f ps)) \<Longrightarrow> x \<in> set vs \<Longrightarrow>
   (\<exists>vs0. (k, vs0) \<in> set (md5_duplicates f) \<and> x \<in> set vs0)
   \<or> (x \<in> set ps \<and> fst (calculate_md5 h w x) = k \<and> k \<noteq> [])"
proof (induction ps arbitrary: f)
  case Nil
  then show ?case by auto
next
  case (Cons p ps)
  from Cons.IH [OF Cons.prems [simplified]]
  consider vs0 where "(k, vs0) \<in> set (md5_duplicates (md5_step h w f p))" "x \<in> set vs0"
    | "x \<in> set ps" "fst (calculate_md5 h w x) = k" "k \<noteq> []"
    by blast
  then show ?case
  proof cases
    case 1
    then show ?thesis
      by (auto simp: md5_step_dict split: if_splits dest: dict_append_member)
  next
    case 2
    then show ?thesis by simp
  qed
qed

lemma md5_loop_skip:
  "fst (calculate_md5 h w p) = [] \<Longrightarrow>
   md5_duplicates (foldl (md5_step h w) f (xs @ p # ys)) =
   md5_duplicates (foldl (md5_step h w) f (xs @ ys))"
proof -
  assume e: "fst (calculate_md5 h w p) = []"
  have dict: "md5_duplicates (foldl (md5_step h w) g zs) =
        foldl (\<lambda>d q. if fst (calculate_md5 h w q) \<noteq> []
                      then dict_append (fst (calculate_md5 h w q)) q d else d)
          (md5_duplicates g) zs" for g zs
    by (induction zs arbitrary: g) (simp_all add: md5_step_dict)
  show ?thesis unfolding dict using e by simp
qed

lemma find_md5_group_of_pair:
  assumes "p \<in> set (fst (get_image_files w))" "q \<in> set (fst (get_image_files w))" "p \<noteq> q"
    and "fst (calculate_md5 h w p) = k" "fst (calculate_md5 h w q) = k" "k \<noteq> []"
  shows "\<exists>files. (k, files) \<in> set (md5_duplicates (find_md5_duplicates h w init))
           \<and> p \<in> set files \<and> q \<in> set files"
proof -
  let ?images = "fst (get_image_files w)"
  let ?f1 = "init\<lparr>all_images := ?images, console := console init @ snd (get_image_files w)\<rparr>"
  let ?d = "md5_duplicates (foldl (md5_step h w) ?f1 ?images)"
  let ?files = "filter (\<lambda>x. fst (calculate_md5 h w x) = k) ?images"
  have b: "bucket ?d k = ?files"
    using md5_loop_bucket [OF assms(6), of h w ?f1 ?images] by (simp add: init_def bucket_def)
  have pq: "p \<in> set ?files" "q \<in> set ?files" using assms by auto
  then have "card {p, q} \<le> card (set ?files)" by (intro card_mono) auto
  then have len: "2 \<le> length ?files"
    using assms(3) card_length [of ?files] by simp
  then have "?files \<noteq> []" by auto
  then have "(k, ?files) \<in> set ?d" using bucket_member [of ?d k] b by simp
  then have "(k, ?files) \<in> set (md5_duplicates (find_md5_duplicates h w init))"
    using len by (simp add: find_md5_duplicates_dict)
  with pq show ?thesis by blast
qed

lemma find_md5_members:
  assumes "(k, files) \<in> set (md5_duplicates (find_md5_duplicates h w init))" "x \<in> set files"
  shows "x \<in> set (fst (get_image_files w)) \<and> fst (calculate_md5 h w x) = k \<and> k \<noteq> []"
proof -
  let ?images = "fst (get_image_files w)"
  let ?f1 = "init\<lparr>all_images := ?images, console := console init @ snd (get_image_files w)\<rparr>"
  from assms(1) have "(k, files) \<in> set (md5_duplicates (foldl (md5_step h w) ?f1 ?images))"
    by (simp add: find_md5_duplicates_dict)
  from md5_loop_members [OF this assms(2)] show ?thesis by (simp add: init_def)
qed

text \<open>
  C4.  Two different enumerated files that both deliver the same bytes get the same
  digest: the lowercase hex rendering, 32 digits long, of the digest of the file's
  4096-byte chunks fed to the hash in order; and one exact group of the run lists both.
\<close>

theorem identical_files_same_digest_same_group:
  assumes "p \<in> set (fst (get_image_files w))" "q \<in> set (fst (get_image_files w))" "p \<noteq> q"
    and "node_of w p = Some (Regular (Bytes bs))" "node_of w q = Some (Regular (Bytes bs))"
  shows "fst (calculate_md5 h w p) = fst (calculate_md5 h w q)
     \<and> fst (calculate_md5 h w p) =
         hexdigest (md5_digest h (foldl (md5_update h) (md5_new h) (chunks 4096 bs)))
     \<and> concat (chunks 4096 bs) = bs
     \<and> (\<forall>c \<in> set (chunks 4096 bs). 0 < length c \<and> length c \<le> 4096)
     \<and> length (fst (calculate_md5 h w p)) = 32
     \<and> set (fst (calculate_md5 h w p)) \<subseteq> set ''0123456789abcdef''
     \<and> (\<exists>files. (fst (calculate_md5 h w p), files) \<in> set (md5_duplicates (run h il w T))
           \<and> p \<in> set files \<and> q \<in> set files)"
proof -
  let ?k = "hexdigest (md5_digest h (foldl (md5_update h) (md5_new h) (chunks 4096 bs)))"
  have kp: "fst (calculate_md5 h w p) = ?k" and kq: "fst (calculate_md5 h w q) = ?k"
    using assms(4,5) by (simp_all add: calculate_md5_readable)
  have grp: "\<exists>files. (?k, files) \<in> set (md5_duplicates (run h il w T)) \<and> p \<in> set files \<and> q \<in> set files"
    unfolding run_md5_duplicates
    using find_md5_group_of_pair [OF assms(1,2,3) kp kq hexdigest_nonempty] .
  have ch: "\<forall>c \<in> set (chunks 4096 bs). 0 < length c \<and> length c \<le> 4096"
    using chunks_length by blast
  show ?thesis
    unfolding kp kq using grp ch hexdigest_length hexdigest_lower
    by (simp add: chunks_concat)
qed

theorem identical_files_same_digest_same_group_witness:
  "fst (calculate_md5 demo_hasher demo_world ''a.jpg'') = ''00000000000000000000000000000030''
   \<and> fst (calculate_md5 demo_hasher demo_world ''c.bmp'') = ''00000000000000000000000000000030''
   \<and> (\<exists>files. (''00000000000000000000000000000030'', files)
          \<in> set (md5_duplicates (run demo_hasher demo_lib demo_world (85 / 100)))
        \<and> ''a.jpg'' \<in> set files \<and> ''c.bmp'' \<in> set files)"
proof -
  have enum: "fst (get_image_files demo_world) =
      [''a.jpg'', ''b.PNG'', ''c.bmp'', ''e.jpg'', ''f.tiff'', ''g.webp'', ''h.jpg'']"
    by code_simp
  have a: "node_of demo_world ''a.jpg'' = Some (Regular (Bytes [15, 15, 15]))"
    and c: "node_of demo_world ''c.bmp'' = Some (Regular (Bytes [15, 15, 15]))"
    by (simp_all add: demo_world_def)
  have k: "fst (calculate_md5 demo_hasher demo_world ''a.jpg'') = ''00000000000000000000000000000030''"
    by code_simp
  have "''a.jpg'' \<in> set (fst (get_image_files demo_world))"
    "''c.bmp'' \<in> set (fst (get_image_files demo_world))" "''a.jpg'' \<noteq> ''c.bmp''"
    unfolding enum by simp_all
  note t = identical_files_same_digest_same_group [OF this a c, of demo_hasher demo_lib "85 / 100"]
  from t have kc: "fst (calculate_md5 demo_hasher demo_world ''c.bmp'') = ''00000000000000000000000000000030''"
    using k by simp
  from t have "\<exists>files. (fst (calculate_md5 demo_hasher demo_world ''a.jpg''), files)
          \<in> set (md5_duplicates (run demo_hasher demo_lib demo_world (85 / 100)))
        \<and> ''a.jpg'' \<in> set files \<and> ''c.bmp'' \<in> set files"
    by blast
  then show ?thesis using k kc by simp
qed

text \<open>
  C6.  A file that does not deliver its bytes when the digest is computed (it is missing,
  not a regular file, cannot be opened, or a read fails) gets the empty string as its
  digest; it is listed in no exact group of a run; and the loop over any enumeration
  groups the other files as if the file had not been enumerated.
\<close>

theorem unreadable_file_is_skipped:
  assumes "\<forall>bs. node_of w p \<noteq> Some (Regular (Bytes bs))"
  shows "fst (calculate_md5 h w p) = []
     \<and> (\<forall>(k, files) \<in> set (md5_duplicates (run h il w T)). p \<notin> set files)
     \<and> md5_duplicates (foldl (md5_step h w) f (xs @ p # ys)) =
         md5_duplicates (foldl (md5_step h w) f (xs @ ys))"
proof -
  have e: "fst (calculate_md5 h w p) = []"
    using assms by (rule calculate_md5_unreadable)
  have "p \<notin> set files" if "(k, files) \<in> set (md5_duplicates (run h il w T))" for k files
    using find_md5_members [of k files h w p] that e by (auto simp: run_md5_duplicates)
  then show ?thesis using e md5_loop_skip [OF e] by auto
qed

theorem unreadable_file_is_skipped_witness:
  "calculate_md5 demo_hasher demo_world ''g.webp'' = ([], [Md5Error ''g.webp''])
   \<and> ''g.webp'' \<in> set (all_images (run demo_hasher demo_lib demo_world (85 / 100)))
   \<and> md5_duplicates (run demo_hasher demo_lib demo_world (85 / 100)) =
       [(''00000000000000000000000000000030'', [''a.jpg'', ''c.bmp''])]
   \<and> md5_duplicates (foldl (md5_step demo_hasher demo_world) init [''a.jpg'', ''g.webp'', ''c.bmp'']) =
       md5_duplicates (foldl (md5_step demo_hasher demo_world) init [''a.jpg'', ''c.bmp''])"
proof -
  have n: "\<forall>bs. node_of demo_world ''g.webp'' \<noteq> Some (Regular (Bytes bs))"
    by (simp add: demo_world_def)
  have e: "calculate_md5 demo_hasher demo_world ''g.webp'' = ([], [Md5Error ''g.webp''])"
    "''g.webp'' \<in> set (all_images (run demo_hasher demo_lib demo_world (85 / 100)))"
    "md5_duplicates (run demo_hasher demo_lib demo_world (85 / 100)) =
       [(''00000000000000000000000000000030'', [''a.jpg'', ''c.bmp''])]"
    by code_simp+
  from unreadable_file_is_skipped [OF n, of demo_hasher demo_lib "85 / 100" init "[''a.jpg'']" "[''c.bmp'']"]
  show ?thesis using e by simp
qed

section \<open>File enumeration\<close>

lemma is_file_returns:
  "node_of w p \<noteq> Some NoStat \<Longrightarrow> is_file w p = Inr (\<exists>c. node_of w p = Some (Regular c))"
  by (auto simp: is_file_def split: option.splits node.splits)

lemma is_file_raises: "(\<exists>e. is_file w p = Inl e) = (node_of w p = Some NoStat)"
  by (auto simp: is_file_def split: option.splits node.splits)

lemma scan_entries_finite: "finite (fst acc) \<Longrightarrow> finite (fst (scan_entries w es acc))"
  by (induction es arbitrary: acc) (auto split: sum.splits bool.splits)

lemma scan_entries_sound:
  "fst (scan_entries w es acc) \<subseteq>
     fst acc \<union> {p \<in> set es. is_file w p = Inr True
                  \<and> lower (path_suffix p) \<in> supported_formats \<and> safe_file_access w p}"
proof (induction es arbitrary: acc)
  case Nil
  then show ?case by simp
next
  case (Cons p es)
  show ?case
    using Cons.IH [of acc] Cons.IH [of "(insert p (fst acc), snd acc)"]
      Cons.IH [of "(fst acc, snd acc @ [Inaccessible p])"]
    by (auto split: sum.splits bool.splits)
qed

lemma scan_entries_complete:
  "\<forall>p \<in> set es. \<forall>e. is_file w p \<noteq> Inl e \<Longrightarrow>
   scan_entries w es acc =
     (fst acc \<union> {p \<in> set es. is_file w p = Inr True
                   \<and> lower (path_suffix p) \<in> supported_formats \<and> safe_file_access w p},
      snd acc @ map Inaccessible
        (filter (\<lambda>p. is_file w p = Inr True \<and> lower (path_suffix p) \<in> supported_formats
                      \<and> \<not> safe_file_access w p) es))"
proof (induction es arbitrary: acc)
  case Nil
  then show ?case by simp
next
  case (Cons p es)
  from Cons.prems obtain b where b: "is_file w p = Inr b"
    by (cases "is_file w p") auto
  from Cons.prems have rest: "\<forall>p \<in> set es. \<forall>e. is_file w p \<noteq> Inl e" by simp
  note IH = Cons.IH [OF rest]
  show ?case
  proof (cases "b \<and> lower (path_suffix p) \<in> supported_formats")
    case False
    then have "scan_entries w (p # es) acc = scan_entries w es acc"
      using b by (cases b) auto
    then show ?thesis using False b IH [of acc] by auto
  next
    case True
    show ?thesis
    proof (cases "safe_file_access w p")
      case safe: True
      have "scan_entries w (p # es) acc = scan_entries w es (insert p (fst acc), snd acc)"
        using True b safe by simp
      then show ?thesis using True b safe IH [of "(insert p (fst acc), snd acc)"] by auto
    next
      case unsafe: False
      have "scan_entries w (p # es) acc =
            scan_entries w es (fst acc, snd acc @ [Inaccessible p])"
        using True b unsafe by simp
      then show ?thesis
        using True b unsafe IH [of "(fst acc, snd acc @ [Inaccessible p])"] by auto
    qed
  qed
qed

lemma get_image_files_sound:
  "set (fst (get_image_files w)) \<subseteq>
     {p \<in> (case iterdir w of None \<Rightarrow> {} | Some es \<Rightarrow> set es).
        is_file w p = Inr True \<and> lower (path_suffix p) \<in> supported_formats
        \<and> safe_file_access w p}"
proof (cases "iterdir w")
  case None
  then show ?thesis by (simp add: get_image_files_def)
next
  case (Some es)
  have "finite (fst (scan_entries w es ({}, [])))"
    by (rule scan_entries_finite) simp
  then show ?thesis
    using Some scan_entries_sound [of w es "({}, [])"]
    by (simp add: get_image_files_def case_prod_beta)
qed

lemma get_image_files_set:
  assumes "\<forall>p \<in> (case iterdir w of None \<Rightarrow> {} | Some es \<Rightarrow> set es). \<forall>e. is_file w p \<noteq> Inl e"
  shows "set (fst (get_image_files w)) =
     {p \<in> (case iterdir w of None \<Rightarrow> {} | Some es \<Rightarrow> set es).
        is_file w p = Inr True \<and> lower (path_suffix p) \<in> supported_formats
        \<and> safe_file_access w p}"
proof (cases "iterdir w")
  case None
  then show ?thesis by (simp add: get_image_files_def)
next
  case (Some es)
  with assms have ok: "\<forall>p \<in> set es. \<forall>e. is_file w p \<noteq> Inl e" by simp
  have "finite (fst (scan_entries w es ({}, [])))"
    by (rule scan_entries_finite) simp
  then show ?thesis
    using Some by (simp add: get_image_files_def case_prod_beta scan_entries_complete [OF ok])
qed

lemma get_image_files_warnings:
  assumes "\<forall>p \<in> (case iterdir w of None \<Rightarrow> {} | Some es \<Rightarrow> set es). \<forall>e. is_file w p \<noteq> Inl e"
  shows "snd (get_image_files w) =
     (case iterdir w of
        None \<Rightarrow> [ListError]
      | Some es \<Rightarrow> map Inaccessible
          (filter (\<lambda>p. is_file w p = Inr True \<and> lower (path_suffix p) \<in> supported_formats
                        \<and> \<not> safe_file_access w p) es))"
proof (cases "iterdir w")
  case None
  then show ?thesis by (simp add: get_image_files_def)
next
  case (Some es)
  with assms have ok: "\<forall>p \<in> set es. \<forall>e. is_file w p \<noteq> Inl e" by simp
  show ?thesis
    using Some by (simp add: get_image_files_def case_prod_beta scan_entries_complete [OF ok])
qed

lemma safe_file_access_iff:
  "safe_file_access w p = (\<exists>c. node_of w p = Some (Regular c) \<and> read_one_ok c)"
  by (auto simp: safe_file_access_def path_exists_def is_file_def
      split: option.splits node.splits)

text \<open>
  C5, amended.  The enumerator returns only directory entries that are regular files,
  whose suffix in lower case is in the allow-list, and that pass the probe; the probe
  asks that the file exists, is a regular file, and that opening it and reading up to one
  byte raise nothing, which an empty file satisfies.  The result is sorted and without
  repetition.  When no entry's \<^verbatim>\<open>is_file()\<close> raises, the enumerator returns exactly those
  entries, and an entry failing the probe yields one warning and nothing else; a
  directory that cannot be listed yields the empty sequence and one error line.
\<close>

theorem get_image_files_contract:
  "set (fst (get_image_files w)) \<subseteq>
     {p \<in> (case iterdir w of None \<Rightarrow> {} | Some es \<Rightarrow> set es).
        is_file w p = Inr True
        \<and> lower (path_suffix p) \<in> {''.jpg'', ''.jpeg'', ''.png'', ''.bmp'', ''.tiff'', ''.webp''}
        \<and> safe_file_access w p}
   \<and> (\<forall>p. safe_file_access w p =
          (\<exists>c. node_of w p = Some (Regular c) \<and> c \<noteq> Denied \<and> c \<noteq> Faulty []))
   \<and> sorted (fst (get_image_files w))
   \<and> distinct (fst (get_image_files w))
   \<and> ((\<forall>p \<in> (case iterdir w of None \<Rightarrow> {} | Some es \<Rightarrow> set es). \<forall>e. is_file w p \<noteq> Inl e) \<longrightarrow>
        set (fst (get_image_files w)) =
          {p \<in> (case iterdir w of None \<Rightarrow> {} | Some es \<Rightarrow> set es).
             is_file w p = Inr True
             \<and> lower (path_suffix p) \<in> {''.jpg'', ''.jpeg'', ''.png'', ''.bmp'', ''.tiff'', ''.webp''}
             \<and> safe_file_access w p}
        \<and> snd (get_image_files w) =
            (case iterdir w of
               None \<Rightarrow> [ListError]
             | Some es \<Rightarrow> map Inaccessible
                 (filter (\<lambda>p. is_file w p = Inr True
                               \<and> lower (path_suffix p) \<in> supported_formats
                               \<and> \<not> safe_file_access w p) es)))"
proof -
  have probe: "safe_file_access w p =
      (\<exists>c. node_of w p = Some (Regular c) \<and> c \<noteq> Denied \<and> c \<noteq> Faulty [])" for p
  proof -
    have "read_one_ok c = (c \<noteq> Denied \<and> c \<noteq> Faulty [])" for c
      by (cases c) (simp_all add: read_one_ok_def)
    then show ?thesis unfolding safe_file_access_iff by simp
  qed
  have sound: "set (fst (get_image_files w)) \<subseteq>
     {p \<in> (case iterdir w of None \<Rightarrow> {} | Some es \<Rightarrow> set es).
        is_file w p = Inr True
        \<and> lower (path_suffix p) \<in> {''.jpg'', ''.jpeg'', ''.png'', ''.bmp'', ''.tiff'', ''.webp''}
        \<and> safe_file_access w p}"
    using get_image_files_sound [of w] unfolding supported_formats_def .
  have exact: "set (fst (get_image_files w)) =
          {p \<in> (case iterdir w of None \<Rightarrow> {} | Some es \<Rightarrow> set es).
             is_file w p = Inr True
             \<and> lower (path_suffix p) \<in> {''.jpg'', ''.jpeg'', ''.png'', ''.bmp'', ''.tiff'', ''.webp''}
             \<and> safe_file_access w p}"
    if "\<forall>p \<in> (case iterdir w of None \<Rightarrow> {} | Some es \<Rightarrow> set es). \<forall>e. is_file w p \<noteq> Inl e"
    using get_image_files_set [OF that] unfolding supported_formats_def .
  show ?thesis
    using sound exact probe get_image_files_sorted [of w] get_image_files_distinct [of w]
      get_image_files_warnings [of w]
    by blast
qed

theorem get_image_files_contract_witness:
  "get_image_files demo_world =
     ([''a.jpg'', ''b.PNG'', ''c.bmp'', ''e.jpg'', ''f.tiff'', ''g.webp'', ''h.jpg''],
      [Inaccessible ''d.jpeg''])
   \<and> sorted [''a.jpg'', ''b.PNG'', ''c.bmp'', ''e.jpg'', ''f.tiff'', ''g.webp'', ''h.jpg'']
   \<and> \<not> safe_file_access demo_world ''d.jpeg''
   \<and> set [''a.jpg'', ''b.PNG'', ''c.bmp'', ''e.jpg'', ''f.tiff'', ''g.webp'', ''h.jpg''] =
       {p \<in> set [''e.jpg'', ''b.PNG'', ''a.jpg'', ''notes.txt'', ''d.jpeg'', ''c.bmp'',
                  ''g.webp'', ''f.tiff'', ''sub.png'', ''h.jpg''].
          is_file demo_world p = Inr True
          \<and> lower (path_suffix p) \<in> {''.jpg'', ''.jpeg'', ''.png'', ''.bmp'', ''.tiff'', ''.webp''}
          \<and> safe_file_access demo_world p}"
proof -
  have e: "get_image_files demo_world =
     ([''a.jpg'', ''b.PNG'', ''c.bmp'', ''e.jpg'', ''f.tiff'', ''g.webp'', ''h.jpg''],
      [Inaccessible ''d.jpeg''])"
    by code_simp
  have n: "node_of demo_world ''d.jpeg'' = Some (Regular Denied)"
    by (simp add: demo_world_def)
  have l: "iterdir demo_world =
      Some [''e.jpg'', ''b.PNG'', ''a.jpg'', ''notes.txt'', ''d.jpeg'', ''c.bmp'',
            ''g.webp'', ''f.tiff'', ''sub.png'', ''h.jpg'']"
    by (simp add: demo_world_def)
  have ok: "\<forall>p \<in> (case iterdir demo_world of None \<Rightarrow> {} | Some es \<Rightarrow> set es).
              \<forall>e. is_file demo_world p \<noteq> Inl e"
    unfolding l by (simp add: is_file_def demo_world_def)
  note t = get_image_files_contract [of demo_world]
  from t have "sorted (fst (get_image_files demo_world))"
    and "safe_file_access demo_world ''d.jpeg'' =
          (\<exists>c. node_of demo_world ''d.jpeg'' = Some (Regular c) \<and> c \<noteq> Denied \<and> c \<noteq> Faulty [])"
    by blast+
  moreover from t ok have "set (fst (get_image_files demo_world)) =
       {p \<in> (case iterdir demo_world of None \<Rightarrow> {} | Some es \<Rightarrow> set es).
          is_file demo_world p = Inr True
          \<and> lower (path_suffix p) \<in> {''.jpg'', ''.jpeg'', ''.png'', ''.bmp'', ''.tiff'', ''.webp''}
          \<and> safe_file_access demo_world p}"
    by blast
  ultimately show ?thesis unfolding e n l by simp
qed

text \<open>
  C5 as the specification words it asks that at least one byte can be read, and that the
  enumerator returns exactly the files that qualify.  An empty image file delivers no
  byte, yet the enumerator returns it.  And in a directory whose fourth entry listed has
  no readable status, the enumeration ends at that entry with an error line: the image
  \<^verbatim>\<open>c.jpg\<close> listed after it is readable and is not returned.
\<close>

theorem empty_file_is_enumerated:
  "get_image_files empty_file_world = ([''empty.jpg''], [])
   \<and> \<not> spec_readability_probe empty_file_world ''empty.jpg''
   \<and> get_image_files unstattable_world = ([''a.jpg'', ''b.jpg'', ''d.jpg''], [ListError])
   \<and> safe_file_access unstattable_world ''c.jpg''"
  by code_simp

section \<open>Files that do not decode\<close>

lemma md5_step_console:
  "console (md5_step h w f p) = console f @ snd (calculate_md5 h w p)"
  by (simp add: md5_step_def Let_def case_prod_beta)

lemma md5_loop_console: "set (console f) \<subseteq> set (console (foldl (md5_step h w) f ps))"
proof (induction ps arbitrary: f)
  case Nil
  then show ?case by simp
next
  case (Cons p ps)
  from Cons.IH [of "md5_step h w f p"] show ?case
    by (auto simp: md5_step_console)
qed

lemma find_md5_console:
  "set (snd (get_image_files w)) \<subseteq> set (console (find_md5_duplicates h w f))"
proof -
  let ?f1 = "f\<lparr>all_images := fst (get_image_files w),
               console := console f @ snd (get_image_files w)\<rparr>"
  have "set (console ?f1) \<subseteq> set (console (foldl (md5_step h w) ?f1 (fst (get_image_files w))))"
    by (rule md5_loop_console)
  then show ?thesis
    by (simp add: find_md5_duplicates_def Let_def case_prod_beta)
qed

lemma hash_step_snd:
  "set (snd acc) \<union> set (snd (calculate_perceptual_hash il w p))
     \<subseteq> set (snd (hash_step il w acc p))"
  by (auto simp: hash_step_def Let_def case_prod_beta split: option.splits)

lemma hash_loop_snd_mono: "set (snd acc) \<subseteq> set (snd (foldl (hash_step il w) acc ps))"
proof (induction ps arbitrary: acc)
  case Nil
  then show ?case by simp
next
  case (Cons p ps)
  from Cons.IH [of "hash_step il w acc p"] hash_step_snd [of acc il w p]
  show ?case by auto
qed

lemma hash_loop_snd:
  "p \<in> set ps \<Longrightarrow>
   set (snd (calculate_perceptual_hash il w p)) \<subseteq> set (snd (foldl (hash_step il w) acc ps))"
proof (induction ps arbitrary: acc)
  case Nil
  then show ?case by simp
next
  case (Cons q ps)
  show ?case
  proof (cases "p = q")
    case True
    from hash_loop_snd_mono [of "hash_step il w acc q" il w ps] hash_step_snd [of acc il w q]
    show ?thesis using True by auto
  next
    case False
    with Cons.prems have "p \<in> set ps" by simp
    from Cons.IH [OF this, of "hash_step il w acc q"] show ?thesis by simp
  qed
qed

lemma run_console:
  "console (run h il w T) =
     console (find_md5_duplicates h w init) @
     snd (foldl (hash_step il w) ([], []) (fst (get_image_files w)))"
  by (simp add: run_def find_perceptual_duplicates_def find_md5_all_images case_prod_beta)

lemma hash_loop_skip:
  "fingerprint_of il w p = None \<Longrightarrow>
   fst (foldl (hash_step il w) acc (xs @ p # ys)) = fst (foldl (hash_step il w) acc (xs @ ys))"
proof -
  assume e: "fingerprint_of il w p = None"
  have loop: "fst (foldl (hash_step il w) a zs) =
        foldl (\<lambda>d q. case fingerprint_of il w q of None \<Rightarrow> d | Some h \<Rightarrow> AList.update q h d)
          (fst a) zs" for a zs
    by (induction zs arbitrary: a) (simp_all add: hash_step_fst)
  show ?thesis unfolding loop using e by simp
qed

lemma run_similar_members:
  assumes "g \<in> set (perceptual_duplicates (run h il w T))" "x \<in> set g"
  shows "x \<in> set (fst (get_image_files w)) \<and> fingerprint_of il w x \<noteq> None"
proof -
  let ?items = "spec_fingerprinted il w (fst (get_image_files w))"
  have "distinct (map fst ?items)"
    by (simp add: spec_fingerprinted_keys get_image_files_distinct)
  then have "set (concat (spec_greedy (meets_threshold T) {} ?items)) \<subseteq> fst ` set ?items"
    using spec_greedy_disjoint [of ?items "meets_threshold T" "{}"] by auto
  moreover have "x \<in> set (concat (spec_greedy (meets_threshold T) {} ?items))"
    using assms by (auto simp: run_perceptual_spec)
  ultimately have "x \<in> set (map fst ?items)" by auto
  then show ?thesis unfolding spec_fingerprinted_keys by simp
qed

lemma undecodable_hash:
  "node_of w p = Some (Regular (Bytes bs)) \<Longrightarrow> dhash_hex il 16 bs = None \<Longrightarrow>
   calculate_perceptual_hash il w p = ([], [PhashError p])"
  by (simp add: calculate_perceptual_hash_def safe_file_access_def path_exists_def is_file_def
      read_one_ok_def)

text \<open>
  C7.  A readable file whose bytes the image library cannot decode gets the empty string
  as its perceptual hash, with an error line and no exception; no similar group of a run
  lists it; the exact groups of the run are those of the digest stage, which lists the
  file together with any other enumerated file of the same bytes; and the fingerprints
  collected from any enumeration are those collected without the file.
\<close>

theorem undecodable_file_is_left_out_of_similarity_only:
  assumes "node_of w p = Some (Regular (Bytes bs))" "dhash_hex il 16 bs = None"
  shows "calculate_perceptual_hash il w p = ([], [PhashError p])
     \<and> (\<forall>g \<in> set (perceptual_duplicates (run h il w T)). p \<notin> set g)
     \<and> md5_duplicates (run h il w T) = md5_duplicates (find_md5_duplicates h w init)
     \<and> (\<forall>q. q \<noteq> p \<and> p \<in> set (fst (get_image_files w)) \<and> q \<in> set (fst (get_image_files w))
             \<and> node_of w q = Some (Regular (Bytes bs)) \<longrightarrow>
           (\<exists>files. (fst (calculate_md5 h w p), files) \<in> set (md5_duplicates (run h il w T))
              \<and> p \<in> set files \<and> q \<in> set files))
     \<and> fst (foldl (hash_step il w) acc (xs @ p # ys)) =
         fst (foldl (hash_step il w) acc (xs @ ys))"
proof -
  note e = undecodable_hash [OF assms]
  then have none: "fingerprint_of il w p = None"
    by (simp add: fingerprint_of_def)
  have sim: "\<forall>g \<in> set (perceptual_duplicates (run h il w T)). p \<notin> set g"
    using run_similar_members [of _ h il w T p] none by blast
  have exact: "\<exists>files. (fst (calculate_md5 h w p), files) \<in> set (md5_duplicates (run h il w T))
              \<and> p \<in> set files \<and> q \<in> set files"
    if "q \<noteq> p" "p \<in> set (fst (get_image_files w))" "q \<in> set (fst (get_image_files w))"
      "node_of w q = Some (Regular (Bytes bs))" for q
  proof -
    have "fst (calculate_md5 h w q) = fst (calculate_md5 h w p)"
      using assms(1) that(4) by (simp add: calculate_md5_readable)
    moreover have "fst (calculate_md5 h w p) \<noteq> []"
      using assms(1) by (simp add: calculate_md5_readable hexdigest_nonempty)
    ultimately show ?thesis
      unfolding run_md5_duplicates
      using find_md5_group_of_pair [of p w q h "fst (calculate_md5 h w p)"] that by auto
  qed
  show ?thesis
    using e sim exact run_md5_duplicates [of h il w T] hash_loop_skip [OF none] by blast
qed

theorem undecodable_file_is_left_out_of_similarity_only_witness:
  "calculate_perceptual_hash demo_lib corrupt_pair_world ''x.png'' = ([], [PhashError ''x.png''])
   \<and> perceptual_duplicates (run demo_hasher demo_lib corrupt_pair_world (85 / 100)) = []
   \<and> md5_duplicates (run demo_hasher demo_lib corrupt_pair_world (85 / 100)) =
       [(''00000000000000000000000000000102'', [''x.png'', ''y.png''])]
   \<and> all_images (run demo_hasher demo_lib corrupt_pair_world (85 / 100)) =
       [''a.jpg'', ''x.png'', ''y.png'']"
proof -
  have n: "node_of corrupt_pair_world ''x.png'' = Some (Regular (Bytes [255, 1]))"
    by (simp add: corrupt_pair_world_def)
  have d: "dhash_hex demo_lib 16 [255, 1] = None"
    by (simp add: demo_lib_def)
  have e: "perceptual_duplicates (run demo_hasher demo_lib corrupt_pair_world (85 / 100)) = []"
    "md5_duplicates (find_md5_duplicates demo_hasher corrupt_pair_world init) =
       [(''00000000000000000000000000000102'', [''x.png'', ''y.png''])]"
    "all_images (run demo_hasher demo_lib corrupt_pair_world (85 / 100)) =
       [''a.jpg'', ''x.png'', ''y.png'']"
    by code_simp+
  from undecodable_file_is_left_out_of_similarity_only [OF n d, of demo_hasher "85 / 100"]
  show ?thesis using e by simp
qed

section \<open>The count of images in the report\<close>

lemma dict_append_keys: "fst ` set (dict_append k v d) = insert k (fst ` set d)"
proof (induction d)
  case Nil
  then show ?case by simp
next
  case (Cons e d)
  obtain k' vs where e: "e = (k', vs)" by (cases e)
  show ?case
  proof (cases "k' = k")
    case True
    then show ?thesis using e by simp
  next
    case False
    then show ?thesis using e Cons.IH by (simp add: insert_commute)
  qed
qed

lemma dict_append_distinct:
  "distinct (map fst d) \<Longrightarrow> distinct (map fst (dict_append k v d))"
proof (induction d)
  case Nil
  then show ?case by simp
next
  case (Cons e d)
  obtain k' vs where e: "e = (k', vs)" by (cases e)
  from Cons e show ?case
    by (auto simp: dict_append_keys)
qed

lemma md5_loop_distinct:
  "distinct (map fst (md5_duplicates f)) \<Longrightarrow>
   distinct (map fst (md5_duplicates (foldl (md5_step h w) f ps)))"
proof (induction ps arbitrary: f)
  case Nil
  then show ?case by simp
next
  case (Cons p ps)
  have "distinct (map fst (md5_duplicates (md5_step h w f p)))"
    using Cons.prems by (simp add: md5_step_dict dict_append_distinct)
  from Cons.IH [OF this] show ?case by simp
qed

lemma find_md5_group_exact:
  assumes "(k, files) \<in> set (md5_duplicates (find_md5_duplicates h w init))"
  shows "files = filter (\<lambda>x. fst (calculate_md5 h w x) = k) (fst (get_image_files w))
     \<and> k \<noteq> [] \<and> 2 \<le> length files"
proof -
  let ?images = "fst (get_image_files w)"
  let ?f1 = "init\<lparr>all_images := ?images, console := console init @ snd (get_image_files w)\<rparr>"
  let ?d = "md5_duplicates (foldl (md5_step h w) ?f1 ?images)"
  from assms have mem: "(k, files) \<in> set ?d" and len: "2 \<le> length files"
    by (auto simp: find_md5_duplicates_dict)
  from len obtain x where "x \<in> set files" by (cases files) auto
  with find_md5_members [OF assms] have k: "k \<noteq> []" by blast
  have "distinct (map fst ?d)"
    by (rule md5_loop_distinct) (simp add: init_def)
  with mem have "map_of ?d k = Some files" by simp
  then have "bucket ?d k = files" by (simp add: bucket_def)
  then have "files = filter (\<lambda>x. fst (calculate_md5 h w x) = k) ?images"
    using md5_loop_bucket [OF k, of h w ?f1 ?images] by (simp add: init_def bucket_def)
  with k len show ?thesis by blast
qed

lemma report_total_images:
  "total_images (report h il w T) = length (fst (get_image_files w))"
  by (simp add: report_def save_results_json_def run_all_images)

lemma readable_is_safe:
  "node_of w p = Some (Regular (Bytes bs)) \<Longrightarrow> safe_file_access w p \<and> is_file w p = Inr True"
  by (simp add: safe_file_access_def path_exists_def is_file_def read_one_ok_def)

text \<open>
  C8, amended.  A directory of three image files, two of them readable.  When the third
  is a regular file that fails the readability probe, the report counts 2 images, no
  group lists the file and a warning names it.  When the third is readable but does not
  decode, the report counts 3 images, since the count is that of the enumerated files; no
  similar group lists the file, an error line names it, and no exact group lists it
  unless its digest is that of one of the two images.
\<close>

theorem corrupt_file_scenario:
  assumes es: "iterdir w = Some es" "set es = {a, b, c}" "a \<noteq> b" "a \<noteq> c" "b \<noteq> c"
    and ext: "lower (path_suffix a) \<in> supported_formats"
      "lower (path_suffix b) \<in> supported_formats" "lower (path_suffix c) \<in> supported_formats"
    and valid: "node_of w a = Some (Regular (Bytes xa))" "node_of w b = Some (Regular (Bytes xb))"
  shows "((\<exists>cc. node_of w c = Some (Regular cc) \<and> \<not> read_one_ok cc) \<longrightarrow>
           total_images (report h il w T) = 2
           \<and> (\<forall>(k, files) \<in> set (md5_duplicates (run h il w T)). c \<notin> set files)
           \<and> (\<forall>g \<in> set (perceptual_duplicates (run h il w T)). c \<notin> set g)
           \<and> Inaccessible c \<in> set (console (run h il w T)))
     \<and> ((\<exists>xc. node_of w c = Some (Regular (Bytes xc)) \<and> dhash_hex il 16 xc = None) \<longrightarrow>
           total_images (report h il w T) = 3
           \<and> (\<forall>g \<in> set (perceptual_duplicates (run h il w T)). c \<notin> set g)
           \<and> PhashError c \<in> set (console (run h il w T))
           \<and> (fst (calculate_md5 h w c) \<noteq> fst (calculate_md5 h w a)
                \<and> fst (calculate_md5 h w c) \<noteq> fst (calculate_md5 h w b) \<longrightarrow>
              (\<forall>(k, files) \<in> set (md5_duplicates (run h il w T)). c \<notin> set files)))"
proof -
  let ?images = "fst (get_image_files w)"
  have ok: "\<forall>p \<in> (case iterdir w of None \<Rightarrow> {} | Some es \<Rightarrow> set es). \<forall>e. is_file w p \<noteq> Inl e"
    if "node_of w c = Some (Regular cc)" for cc
    using es(1,2) valid that by (auto simp: is_file_def)
  have images: "set ?images = {p \<in> {a, b, c}. is_file w p = Inr True \<and> safe_file_access w p}"
    if "node_of w c = Some (Regular cc)" for cc
    using get_image_files_set [OF ok [OF that]] es(1,2) ext by auto
  have ab: "safe_file_access w a \<and> is_file w a = Inr True"
    "safe_file_access w b \<and> is_file w b = Inr True"
    using valid by (auto dest: readable_is_safe)
  have total: "total_images (report h il w T) = card (set ?images)"
    by (simp add: report_total_images distinct_card get_image_files_distinct)
  have unreadable: "total_images (report h il w T) = 2
           \<and> (\<forall>(k, files) \<in> set (md5_duplicates (run h il w T)). c \<notin> set files)
           \<and> (\<forall>g \<in> set (perceptual_duplicates (run h il w T)). c \<notin> set g)
           \<and> Inaccessible c \<in> set (console (run h il w T))"
    if c: "node_of w c = Some (Regular cc)" "\<not> read_one_ok cc" for cc
  proof -
    have nc: "\<not> safe_file_access w c" "is_file w c = Inr True"
      using c by (simp_all add: safe_file_access_iff is_file_def)
    then have "set ?images = {a, b}" using images [OF c(1)] ab by auto
    then have t: "total_images (report h il w T) = 2" using total es(3) by simp
    have out: "c \<notin> set ?images" using images [OF c(1)] nc by simp
    have ex: "c \<notin> set files" if "(k, files) \<in> set (md5_duplicates (run h il w T))" for k files
      using find_md5_members [of k files h w c] that out by (auto simp: run_md5_duplicates)
    have sim: "c \<notin> set g" if "g \<in> set (perceptual_duplicates (run h il w T))" for g
      using run_similar_members [OF that, of c] out by blast
    have "Inaccessible c \<in> set (snd (get_image_files w))"
      using es(1,2) ext(3) nc by (simp add: get_image_files_warnings [OF ok [OF c(1)]])
    then have "Inaccessible c \<in> set (console (run h il w T))"
      using find_md5_console [of w h init] by (auto simp: run_console)
    with t ex sim show ?thesis by blast
  qed
  have corrupt: "total_images (report h il w T) = 3
           \<and> (\<forall>g \<in> set (perceptual_duplicates (run h il w T)). c \<notin> set g)
           \<and> PhashError c \<in> set (console (run h il w T))
           \<and> (fst (calculate_md5 h w c) \<noteq> fst (calculate_md5 h w a)
                \<and> fst (calculate_md5 h w c) \<noteq> fst (calculate_md5 h w b) \<longrightarrow>
              (\<forall>(k, files) \<in> set (md5_duplicates (run h il w T)). c \<notin> set files))"
    if c: "node_of w c = Some (Regular (Bytes xc))" "dhash_hex il 16 xc = None" for xc
  proof -
    have sc: "safe_file_access w c \<and> is_file w c = Inr True"
      using c(1) by (rule readable_is_safe)
    then have all3: "set ?images = {a, b, c}" using images [OF c(1)] ab by auto
    then have t: "total_images (report h il w T) = 3" using total es(3,4,5) by simp
    have none: "fingerprint_of il w c = None"
      using undecodable_hash [OF c] by (simp add: fingerprint_of_def)
    have sim: "c \<notin> set g" if "g \<in> set (perceptual_duplicates (run h il w T))" for g
      using run_similar_members [OF that, of c] none by blast
    have "c \<in> set ?images" using all3 by simp
    from hash_loop_snd [OF this, of il w "([], [])"] undecodable_hash [OF c]
    have err: "PhashError c \<in> set (console (run h il w T))"
      by (simp add: run_console)
    have ex: "c \<notin> set files"
      if d: "fst (calculate_md5 h w c) \<noteq> fst (calculate_md5 h w a)"
        "fst (calculate_md5 h w c) \<noteq> fst (calculate_md5 h w b)"
        and m: "(k, files) \<in> set (md5_duplicates (run h il w T))" for k files
    proof
      assume cin: "c \<in> set files"
      from m have m': "(k, files) \<in> set (md5_duplicates (find_md5_duplicates h w init))"
        by (simp add: run_md5_duplicates)
      from find_md5_group_exact [OF m']
      have f: "files = filter (\<lambda>x. fst (calculate_md5 h w x) = k) ?images" and len: "2 \<le> length files"
        by blast+
      have kc: "fst (calculate_md5 h w c) = k" using cin f by simp
      have "set files \<subseteq> {c}" using f all3 d kc by auto
      moreover have "distinct files" using f get_image_files_distinct [of w] by simp
      ultimately have "length files \<le> 1"
        using distinct_card [of files] card_mono [of "{c}" "set files"] by simp
      with len show False by simp
    qed
    from t sim err ex show ?thesis by blast
  qed
  from unreadable corrupt show ?thesis by blast
qed

theorem corrupt_file_scenario_witness:
  "total_images (report demo_hasher demo_lib (scenario_world (Regular Denied)) (85 / 100)) = 2
   \<and> console (run demo_hasher demo_lib (scenario_world (Regular Denied)) (85 / 100)) =
       [Inaccessible ''c.jpg'']
   \<and> total_images (report demo_hasher demo_lib (scenario_world (Regular (Bytes [255, 1]))) (85 / 100)) = 3
   \<and> PhashError ''c.jpg''
       \<in> set (console (run demo_hasher demo_lib (scenario_world (Regular (Bytes [255, 1]))) (85 / 100)))"
proof -
  have ext: "lower (path_suffix ''a.jpg'') \<in> supported_formats"
    "lower (path_suffix ''b.jpg'') \<in> supported_formats"
    "lower (path_suffix ''c.jpg'') \<in> supported_formats"
    by code_simp+
  have d: "dhash_hex demo_lib 16 [255, 1] = None"
    by (simp add: demo_lib_def)
  have c1: "console (run demo_hasher demo_lib (scenario_world (Regular Denied)) (85 / 100)) =
       [Inaccessible ''c.jpg'']"
    by code_simp
  have u: "total_images (report demo_hasher demo_lib (scenario_world (Regular Denied)) (85 / 100)) = 2"
    using corrupt_file_scenario [of "scenario_world (Regular Denied)"
        "[''c.jpg'', ''a.jpg'', ''b.jpg'']" "''a.jpg''" "''b.jpg''" "''c.jpg''"
        "[15, 15, 15]" "[0, 0, 0, 1]" demo_hasher demo_lib "85 / 100"] ext
    by (simp add: scenario_world_def read_one_ok_def insert_commute)
  have k: "total_images (report demo_hasher demo_lib (scenario_world (Regular (Bytes [255, 1]))) (85 / 100)) = 3
     \<and> PhashError ''c.jpg''
       \<in> set (console (run demo_hasher demo_lib (scenario_world (Regular (Bytes [255, 1]))) (85 / 100)))"
    using corrupt_file_scenario [of "scenario_world (Regular (Bytes [255, 1]))"
        "[''c.jpg'', ''a.jpg'', ''b.jpg'']" "''a.jpg''" "''b.jpg''" "''c.jpg''"
        "[15, 15, 15]" "[0, 0, 0, 1]" demo_hasher demo_lib "85 / 100"] ext d
    by (simp add: scenario_world_def insert_commute)
  from u k c1 show ?thesis by simp
qed

text \<open>
  C8 as the specification words it: with one corrupt file beside two valid distinct images the report
  should count 2 images.  The corrupt file is readable, so it is enumerated and counted.
\<close>

theorem corrupt_file_is_counted:
  "total_images (report demo_hasher demo_lib (scenario_world (Regular (Bytes [255, 1]))) (85 / 100)) = 3
   \<and> calculate_perceptual_hash demo_lib (scenario_world (Regular (Bytes [255, 1]))) ''c.jpg'' =
       ([], [PhashError ''c.jpg''])
   \<and> fst (calculate_perceptual_hash demo_lib (scenario_world (Regular (Bytes [255, 1]))) ''a.jpg'') \<noteq> []
   \<and> fst (calculate_perceptual_hash demo_lib (scenario_world (Regular (Bytes [255, 1]))) ''b.jpg'') \<noteq> []"
  by code_simp

section \<open>Backup before removal\<close>

lemma process_file_counts:
  "(deleted_count (process_file fl bdir st p) = deleted_count st + 1
      \<and> error_count (process_file fl bdir st p) = error_count st)
   \<or> (deleted_count (process_file fl bdir st p) = deleted_count st
      \<and> error_count (process_file fl bdir st p) = error_count st + 1)"
  by (simp add: process_file_def split: sum.splits bool.splits)

lemma process_loop_counts:
  "deleted_count (foldl (process_file fl bdir) st ps)
     + error_count (foldl (process_file fl bdir) st ps)
   = deleted_count st + error_count st + length ps"
proof (induction ps arbitrary: st)
  case Nil
  then show ?case by simp
next
  case (Cons p ps)
  from process_file_counts [of fl bdir st p] Cons.IH [of "process_file fl bdir st p"]
  show ?case by auto
qed

text \<open>
  C10.  Each requested path increments exactly one of the two counters, by one; and in
  every log that is written the successes and the errors add up to the number of paths
  requested.
\<close>

theorem log_counts_partition_request:
  "((deleted_count (process_file fl bdir st p) = deleted_count st + 1
       \<and> error_count (process_file fl bdir st p) = error_count st)
     \<or> (deleted_count (process_file fl bdir st p) = deleted_count st
       \<and> error_count (process_file fl bdir st p) = error_count st + 1))
   \<and> (\<forall>fs' l. create_backup_and_delete fl ts fs req = (fs', Some l) \<longrightarrow>
         successfully_deleted l + errors l = total_requested l)"
proof -
  have "successfully_deleted l + errors l = total_requested l"
    if "create_backup_and_delete fl ts fs req = (fs', Some l)" for fs' l
    using that process_loop_counts [of fl "[''backup_deletions_'' @ ts]" _ "case req of Request fs \<Rightarrow> fs | _ \<Rightarrow> []"]
    by (auto simp: create_backup_and_delete_def Let_def
        split: request.splits if_splits sum.splits)
  then show ?thesis using process_file_counts [of fl bdir st p] by blast
qed

theorem log_counts_partition_request_witness:
  "snd (create_backup_and_delete demo_faults ''20240101_120000'' demo_fs demo_request) =
     Some \<lparr>backup_directory = [''backup_deletions_20240101_120000''],
           total_requested = 3, successfully_deleted = 1, errors = 2,
           deleted_files = [''a.jpg'', ''missing.jpg'']\<rparr>
   \<and> (1::nat) + 2 = 3"
proof -
  have e: "snd (create_backup_and_delete demo_faults ''20240101_120000'' demo_fs demo_request) =
     Some \<lparr>backup_directory = [''backup_deletions_20240101_120000''],
           total_requested = 3, successfully_deleted = 1, errors = 2,
           deleted_files = [''a.jpg'', ''missing.jpg'']\<rparr>"
    by code_simp
  from log_counts_partition_request [of demo_faults "[]"
      "\<lparr>fsys = demo_fs, deleted_count = 0, error_count = 0, printed = []\<rparr>" "[]"
      "''20240101_120000''" demo_fs demo_request]
  have "\<forall>fs' l. create_backup_and_delete demo_faults ''20240101_120000'' demo_fs demo_request = (fs', Some l) \<longrightarrow>
         successfully_deleted l + errors l = total_requested l"
    by blast
  then have "successfully_deleted l + errors l = total_requested l"
    if "snd (create_backup_and_delete demo_faults ''20240101_120000'' demo_fs demo_request) = Some l" for l
    using that by (metis prod.collapse)
  from this [OF e] e show ?thesis by simp
qed


lemma copy_destination_under:
  "take (length bdir) (copy_destination fs p (joinpath bdir n)) = bdir"
  by (simp add: copy_destination_def joinpath_def)

lemma process_file_backup_first:
  assumes "fsys st p \<noteq> None"
  shows "fsys (process_file fl bdir st p) p = fsys st p
     \<or> (\<exists>bs copied.
           fsys st p = Some (File bs)
           \<and> copy2 fl (fsys st) p (joinpath bdir (path_name p)) = Inr copied
           \<and> copied p = Some (File bs)
           \<and> copied (copy_destination (fsys st) p (joinpath bdir (path_name p))) = Some (File bs)
           \<and> copy_destination (fsys st) p (joinpath bdir (path_name p)) \<noteq> p
           \<and> unlink fl copied p = Inr (fsys (process_file fl bdir st p))
           \<and> fsys (process_file fl bdir st p) = copied(p := None)
           \<and> fsys (process_file fl bdir st p)
                (copy_destination (fsys st) p (joinpath bdir (path_name p))) = Some (File bs))"
proof (cases "stat_fails fl p")
  case True
  then show ?thesis by (simp add: process_file_def fpath_exists_def)
next
  case False
  then have ex: "fpath_exists fl (fsys st) p = Inr True"
    using assms by (simp add: fpath_exists_def)
  show ?thesis
  proof (cases "copy2 fl (fsys st) p (joinpath bdir (path_name p))")
    case (Inl e)
    then show ?thesis using ex by (simp add: process_file_def)
  next
    case (Inr copied)
    let ?target = "copy_destination (fsys st) p (joinpath bdir (path_name p))"
    from Inr obtain bs where src: "fsys st p = Some (File bs)" and ne: "?target \<noteq> p"
      and copied: "copied = (fsys st)(?target \<mapsto> File bs)"
      by (auto simp: copy2_def Let_def split: option.splits fnode.splits if_splits)
    have cp: "copied p = Some (File bs)" "copied ?target = Some (File bs)"
      using src ne by (simp_all add: copied)
    show ?thesis
    proof (cases "unlink fl copied p")
      case (Inl e)
      then have "fsys (process_file fl bdir st p) = copied"
        using ex Inr by (simp add: process_file_def)
      then show ?thesis using cp src by simp
    next
      case removed: (Inr removed)
      then have r: "removed = copied(p := None)"
        using cp by (auto simp: unlink_def split: if_splits)
      have "fsys (process_file fl bdir st p) = removed"
        using ex Inr removed by (simp add: process_file_def)
      then show ?thesis using Inr removed r cp src ne by auto
    qed
  qed
qed

text \<open>
  C9.  Take the state in which the executor reaches a requested path \<open>p\<close>, after the paths
  \<open>pre\<close> before it, and let \<open>p\<close> exist there.  Then after \<open>p\<close> is processed either the
  original is unchanged, or the copy succeeded first: it produced a file system that
  holds the original and, at a path under the backup directory and different from \<open>p\<close>,
  a file with the original's bytes; the final file system is that one with \<open>p\<close> removed,
  and still holds the backup.
\<close>

theorem backup_precedes_removal:
  assumes "fsys (foldl (process_file fl bdir) st0 pre) p \<noteq> None"
  shows "fsys (foldl (process_file fl bdir) st0 (pre @ [p])) p =
           fsys (foldl (process_file fl bdir) st0 pre) p
     \<or> (\<exists>bs copied target.
           target = copy_destination (fsys (foldl (process_file fl bdir) st0 pre)) p
                      (joinpath bdir (path_name p))
           \<and> take (length bdir) target = bdir \<and> target \<noteq> p
           \<and> fsys (foldl (process_file fl bdir) st0 pre) p = Some (File bs)
           \<and> copy2 fl (fsys (foldl (process_file fl bdir) st0 pre)) p
               (joinpath bdir (path_name p)) = Inr copied
           \<and> copied p = Some (File bs) \<and> copied target = Some (File bs)
           \<and> unlink fl copied p = Inr (fsys (foldl (process_file fl bdir) st0 (pre @ [p])))
           \<and> fsys (foldl (process_file fl bdir) st0 (pre @ [p])) = copied(p := None)
           \<and> fsys (foldl (process_file fl bdir) st0 (pre @ [p])) target = Some (File bs))"
  using process_file_backup_first [OF assms, of fl bdir]
    copy_destination_under [of bdir "fsys (foldl (process_file fl bdir) st0 pre)" p "path_name p"]
  by auto

theorem backup_precedes_removal_witness:
  "fsys (foldl (process_file demo_faults [''bk''])
          \<lparr>fsys = demo_fs([''bk''] \<mapsto> Dir), deleted_count = 0, error_count = 0, printed = []\<rparr>
          [[''prints'', ''missing.jpg''], [''prints'', ''a.jpg'']]) [''prints'', ''a.jpg''] = None
   \<and> fsys (foldl (process_file demo_faults [''bk''])
          \<lparr>fsys = demo_fs([''bk''] \<mapsto> Dir), deleted_count = 0, error_count = 0, printed = []\<rparr>
          [[''prints'', ''missing.jpg''], [''prints'', ''a.jpg'']]) [''bk'', ''a.jpg''] = Some (File [1, 2])"
proof -
  let ?st0 = "\<lparr>fsys = demo_fs([''bk''] \<mapsto> Dir), deleted_count = 0, error_count = 0,
               printed = []\<rparr>"
  let ?pre = "[[''prints'', ''missing.jpg'']]"
  let ?p = "[''prints'', ''a.jpg'']"
  have before: "fsys (foldl (process_file demo_faults [''bk'']) ?st0 ?pre) ?p = Some (File [1, 2])"
    by code_simp
  have after: "fsys (foldl (process_file demo_faults [''bk'']) ?st0 (?pre @ [?p])) ?p = None"
    by code_simp
  have target: "copy_destination (fsys (foldl (process_file demo_faults [''bk'']) ?st0 ?pre)) ?p
       (joinpath [''bk''] (path_name ?p)) = [''bk'', ''a.jpg'']"
    by code_simp
  have "fsys (foldl (process_file demo_faults [''bk'']) ?st0 ?pre) ?p \<noteq> None"
    using before by simp
  from backup_precedes_removal [OF this] before after target
  have "fsys (foldl (process_file demo_faults [''bk'']) ?st0 (?pre @ [?p])) [''bk'', ''a.jpg'']
          = Some (File [1, 2])"
    by auto
  with after show ?thesis by simp
qed

end
